theory Spec2Isabelle
  imports Complex_Main
begin

section \<open>Classical linear search (quantum\_vs\_classical\_comp.py)\<close>

text \<open>
  \<^verbatim>\<open>
  def classical_search(data, target, visualize=False):
      steps = 0
      for i, val in enumerate(data):
          steps += 1
          if visualize:
              st.write(f"Step {steps}: Checking index {i} (value={val})")
          if val == target:
              return i, steps
      return -1, steps
  \<close>
  The page output produced by \<^verbatim>\<open>st.write\<close> is modelled as a list of events, one per
  written line, holding the three values the line is formatted from.
\<close>

datatype 'a st_event = Checking nat nat 'a

text \<open>
  The loop over \<^verbatim>\<open>enumerate(data)\<close>: the remaining elements, the index \<open>i\<close> of the next
  one, the counter \<open>steps\<close> and the lines written so far.
\<close>

fun classical_search_loop ::
  "'a list \<Rightarrow> 'a \<Rightarrow> bool \<Rightarrow> nat \<Rightarrow> nat \<Rightarrow> 'a st_event list \<Rightarrow> (int \<times> nat) \<times> 'a st_event list" where
  "classical_search_loop [] target visualize i steps out = ((- 1, steps), out)"
| "classical_search_loop (val # rest) target visualize i steps out =
     (let steps' = steps + 1;
          out' = (if visualize then out @ [Checking steps' i val] else out)
      in if val = target then ((int i, steps'), out')
         else classical_search_loop rest target visualize (i + 1) steps' out')"

definition classical_search :: "'a list \<Rightarrow> 'a \<Rightarrow> bool \<Rightarrow> (int \<times> nat) \<times> 'a st_event list" where
  "classical_search data target visualize = classical_search_loop data target visualize 0 0 []"


section \<open>BB84 key sifting, agreement and histogram (qkd.py)\<close>

text \<open>
  The exceptions of the Python runtime that the modelled code can raise.
\<close>

datatype py_error = IndexError | ZeroDivisionError | OverflowError | AttributeError | ValueError

text \<open>
  Subscription \<^verbatim>\<open>xs[i]\<close> of a list by a non-negative index, as produced by \<^verbatim>\<open>range\<close>.
\<close>

definition py_getitem :: "'a list \<Rightarrow> nat \<Rightarrow> py_error + 'a" where
  "py_getitem xs i = (if i < length xs then Inr (xs ! i) else Inl IndexError)"

text \<open>
  \<^verbatim>\<open>
  matching_indices = [i for i in range(num_bits) if alice_bases[i] == bob_bases[i]]
  alice_key = [alice_bits[i] for i in matching_indices]
  bob_key = [bob_results[i] for i in matching_indices]
  \<close>
  The two comprehensions are loops over a list of indices; a subscription out of range
  ends the page with \<open>IndexError\<close>. The bases are the one-character strings
  \<^verbatim>\<open>'Z'\<close> and \<^verbatim>\<open>'X'\<close>, compared by equality only, so their type is left open.
\<close>

fun matching_loop :: "nat list \<Rightarrow> 'b list \<Rightarrow> 'b list \<Rightarrow> py_error + nat list" where
  "matching_loop [] alice_bases bob_bases = Inr []"
| "matching_loop (i # rest) alice_bases bob_bases =
     (case py_getitem alice_bases i of
        Inl e \<Rightarrow> Inl e
      | Inr a \<Rightarrow>
          (case py_getitem bob_bases i of
             Inl e \<Rightarrow> Inl e
           | Inr b \<Rightarrow>
               (case matching_loop rest alice_bases bob_bases of
                  Inl e \<Rightarrow> Inl e
                | Inr r \<Rightarrow> Inr (if a = b then i # r else r))))"

fun select_loop :: "'a list \<Rightarrow> nat list \<Rightarrow> py_error + 'a list" where
  "select_loop xs [] = Inr []"
| "select_loop xs (i # rest) =
     (case py_getitem xs i of
        Inl e \<Rightarrow> Inl e
      | Inr v \<Rightarrow> (case select_loop xs rest of Inl e \<Rightarrow> Inl e | Inr r \<Rightarrow> Inr (v # r)))"

record sifted =
  matching_indices :: "nat list"
  alice_key :: "int list"
  bob_key :: "int list"

definition sift :: "nat \<Rightarrow> int list \<Rightarrow> 'b list \<Rightarrow> 'b list \<Rightarrow> int list \<Rightarrow> py_error + sifted" where
  "sift num_bits alice_bits alice_bases bob_bases bob_results =
     (case matching_loop [0..<num_bits] alice_bases bob_bases of
        Inl e \<Rightarrow> Inl e
      | Inr mi \<Rightarrow>
          (case select_loop alice_bits mi of
             Inl e \<Rightarrow> Inl e
           | Inr ak \<Rightarrow>
               (case select_loop bob_results mi of
                  Inl e \<Rightarrow> Inl e
                | Inr bk \<Rightarrow> Inr \<lparr>matching_indices = mi, alice_key = ak, bob_key = bk\<rparr>)))"

text \<open>
  \<^verbatim>\<open>
  matches = sum(a == b for a, b in zip(alice_key, bob_key))
  total = len(matching_indices)
  accuracy = (matches / total * 100) if total > 0 else 0
  \<close>
  True division raises \<open>ZeroDivisionError\<close> on a zero divisor. The quotient is taken in
  the real numbers; the rounding of the double-precision result is not modelled.
\<close>

definition py_truediv :: "real \<Rightarrow> real \<Rightarrow> py_error + real" where
  "py_truediv a b = (if b = 0 then Inl ZeroDivisionError else Inr (a / b))"

record agreement =
  matches :: nat
  total :: nat
  accuracy :: real

definition key_agreement :: "sifted \<Rightarrow> py_error + agreement" where
  "key_agreement s =
     (let m = sum_list (map (\<lambda>(a, b). if a = b then 1 else 0) (zip (alice_key s) (bob_key s)));
          t = length (matching_indices s)
      in if t > 0
         then (case py_truediv (real m) (real t) of
                 Inl e \<Rightarrow> Inl e
               | Inr q \<Rightarrow> Inr \<lparr>matches = m, total = t, accuracy = q * 100\<rparr>)
         else Inr \<lparr>matches = m, total = t, accuracy = 0\<rparr>)"

text \<open>
  \<^verbatim>\<open>
  counts = {}
  for bit in bob_results:
      counts[str(bit)] = counts.get(str(bit), 0) + 1
  \<close>
  \<^verbatim>\<open>str\<close> of an integer is its decimal numeral, with a leading minus sign when negative.
\<close>

definition digit_char :: "nat \<Rightarrow> char" where
  "digit_char d = ''0123456789'' ! d"

fun digits10 :: "nat \<Rightarrow> string" where
  "digits10 n = (if n < 10 then [digit_char n] else digits10 (n div 10) @ [digit_char (n mod 10)])"

definition py_str :: "int \<Rightarrow> string" where
  "py_str i = (if i < 0 then CHR ''-'' # digits10 (nat (- i)) else digits10 (nat i))"

definition counts_step :: "int \<Rightarrow> (string \<rightharpoonup> nat) \<Rightarrow> (string \<rightharpoonup> nat)" where
  "counts_step b counts =
     counts(py_str b \<mapsto> (case counts (py_str b) of None \<Rightarrow> 0 | Some c \<Rightarrow> c) + 1)"

definition histogram :: "int list \<Rightarrow> (string \<rightharpoonup> nat)" where
  "histogram bob_results = fold counts_step bob_results Map.empty"


section \<open>Start of the BB84 page: importing the simulator (qkd.py)\<close>

text \<open>
  \<^verbatim>\<open>
  try:
      from qiskit_aer import Aer
  except ImportError:
      try:
          from qiskit.providers.aer import Aer
      except ImportError:
          st.error("Qiskit Aer simulator not found. Please install qiskit-aer.")
          st.stop()
  \<close>
  Each import either binds \<^verbatim>\<open>Aer\<close> or raises \<^verbatim>\<open>ImportError\<close>; the second import is
  attempted only after the first has raised. The state after the block records which
  module \<^verbatim>\<open>Aer\<close> comes from, the messages shown by \<^verbatim>\<open>st.error\<close> and whether
  \<^verbatim>\<open>st.stop\<close> has ended the run.
\<close>

datatype import_outcome = Imported | Raises_ImportError

datatype aer_module = Qiskit_aer | Qiskit_providers_aer

record bb84_start =
  aer :: "aer_module option"
  st_errors :: "string list"
  stopped :: bool

definition import_aer :: "import_outcome \<Rightarrow> import_outcome \<Rightarrow> bb84_start" where
  "import_aer qiskit_aer providers_aer =
     (case qiskit_aer of
        Imported \<Rightarrow> \<lparr>aer = Some Qiskit_aer, st_errors = [], stopped = False\<rparr>
      | Raises_ImportError \<Rightarrow>
          (case providers_aer of
             Imported \<Rightarrow> \<lparr>aer = Some Qiskit_providers_aer, st_errors = [], stopped = False\<rparr>
           | Raises_ImportError \<Rightarrow>
               \<lparr>aer = None,
                st_errors = [''Qiskit Aer simulator not found. Please install qiskit-aer.''],
                stopped = True\<rparr>))"


section \<open>Session state of the search comparison page (quantum\_vs\_classical\_comp.py)\<close>

text \<open>
  \<^verbatim>\<open>
  num_items = st.selectbox("Select number of items (must be a power of 2)",
                           options=[4, 8, 16, 32], index=2)
  if "data" not in st.session_state or st.session_state.get("num_items") != num_items:
      st.session_state.data = list(range(num_items))
      st.session_state.target = random.choice(st.session_state.data)
      st.session_state.num_items = num_items
  data = st.session_state.data
  target = st.session_state.target
  if st.button("Reset Target"):
      st.session_state.target = random.choice(st.session_state.data)
      st.experimental_rerun()
  st.write(f"Target value: `{target}` (Index: {data.index(target)})")
  \<close>
  The session state is a dictionary with the three keys \<^verbatim>\<open>data\<close>, \<^verbatim>\<open>target\<close> and
  \<^verbatim>\<open>num_items\<close>, each present or absent. One run of the script reads the widgets and
  updates the session state. The statements after the ones above (the check box and the
  two search buttons) read \<^verbatim>\<open>data\<close> and \<^verbatim>\<open>target\<close> and write to the page only; they
  assign nothing in the session state, so a run is modelled up to this point.
\<close>

record session_state =
  ss_data :: "int list option"
  ss_target :: "int option"
  ss_num_items :: "int option"

record widgets =
  num_items :: int
  reset_target :: bool
  show_data :: bool
  run_classical :: bool
  run_grover :: bool

text \<open>
  \<^verbatim>\<open>random.choice(seq)\<close> returns \<^verbatim>\<open>seq[k]\<close> for a drawn \<open>k\<close> below the length and
  raises \<^verbatim>\<open>IndexError\<close> on an empty sequence. The draw is an argument of the model:
  any natural number, reduced below the length.
\<close>

definition random_choice :: "nat \<Rightarrow> 'a list \<Rightarrow> py_error + 'a" where
  "random_choice r seq = (if seq = [] then Inl IndexError else Inr (seq ! (r mod length seq)))"

definition py_range :: "int \<Rightarrow> int list" where
  "py_range n = map int [0..<nat n]"

text \<open>
  A run ends by reaching the end of the script, by \<^verbatim>\<open>st.experimental_rerun()\<close>, or
  by an exception. Assignments made before the end of the run stay in the session state.
\<close>

datatype run_end = Completed | Rerun | Raised py_error

definition init_session :: "nat \<Rightarrow> int \<Rightarrow> session_state \<Rightarrow> run_end \<times> session_state" where
  "init_session r n ss =
     (if ss_data ss = None \<or> ss_num_items ss \<noteq> Some n
      then (let ss1 = ss\<lparr>ss_data := Some (py_range n)\<rparr>
            in case random_choice r (py_range n) of
                 Inl e \<Rightarrow> (Raised e, ss1)
               | Inr t \<Rightarrow> (Completed, ss1\<lparr>ss_target := Some t, ss_num_items := Some n\<rparr>))
      else (Completed, ss))"

definition run_once :: "widgets \<Rightarrow> nat \<Rightarrow> nat \<Rightarrow> session_state \<Rightarrow> run_end \<times> session_state" where
  "run_once w r_init r_reset ss =
     (case init_session r_init (num_items w) ss of
        (Raised e, ss1) \<Rightarrow> (Raised e, ss1)
      | (_, ss1) \<Rightarrow>
          (case (ss_data ss1, ss_target ss1) of
             (Some data, Some target) \<Rightarrow>
               if reset_target w
               then (case random_choice r_reset data of
                       Inl e \<Rightarrow> (Raised e, ss1)
                     | Inr t \<Rightarrow> (Rerun, ss1\<lparr>ss_target := Some t\<rparr>))
               else (if target \<in> set data then (Completed, ss1) else (Raised ValueError, ss1))
           | _ \<Rightarrow> (Raised AttributeError, ss1)))"

text \<open>
  After \<^verbatim>\<open>st.experimental_rerun()\<close> the script runs again at once with the same widget
  values, the button now reading \<^verbatim>\<open>False\<close>.
\<close>

definition run_page :: "widgets \<Rightarrow> nat \<Rightarrow> nat \<Rightarrow> nat \<Rightarrow> session_state \<Rightarrow> run_end \<times> session_state" where
  "run_page w r_init r_reset r_again ss =
     (case run_once w r_init r_reset ss of
        (Rerun, ss1) \<Rightarrow> run_once (w\<lparr>reset_target := False\<rparr>) r_again r_again ss1
      | res \<Rightarrow> res)"


text \<open>
  The session states that runs of the page produce: all three keys present, the data list
  is \<^verbatim>\<open>list(range(num_items))\<close> and the target is one of its elements.
\<close>

definition session_ok :: "session_state \<Rightarrow> bool" where
  "session_ok ss =
     (case (ss_data ss, ss_target ss, ss_num_items ss) of
        (Some d, Some t, Some n) \<Rightarrow> d = py_range n \<and> t \<in> set d
      | _ \<Rightarrow> False)"

definition empty_session :: session_state where
  "empty_session = \<lparr>ss_data = None, ss_target = None, ss_num_items = None\<rparr>"


section \<open>Circuits of the Grover demo (quantum\_vs\_classical\_comp.py)\<close>

text \<open>
  A circuit is what the script builds: the numbers of quantum and classical bits, the
  name, and the list of the instructions appended so far, each with the qubit arguments
  the script passes (Python integers). \<^verbatim>\<open>Composite\<close> is the gate made by
  \<^verbatim>\<open>to_gate()\<close> from a named circuit, appended on a list of qubits. A name of
  \<open>None\<close> stands for the name the library generates. The model records the calls the
  script makes; the checks the library itself makes on the arguments of a gate are not
  part of it.
\<close>

datatype gate =
    H int
  | X int
  | CX int int
  | MCX "int list" int
  | Measure int int
  | Composite string "gate list" "int list"

record circuit =
  num_qubits :: nat
  num_clbits :: nat
  name :: "string option"
  instructions :: "gate list"

text \<open>
  \<^verbatim>\<open>range(n)\<close> as a list of qubit arguments; a gate method called with a range is
  applied to each qubit in turn.
\<close>

definition qrange :: "int \<Rightarrow> int list" where
  "qrange n = map int [0..<nat n]"

text \<open>
  \<^verbatim>\<open>
  def diffuser(n_qubits):
      qc = QuantumCircuit(n_qubits)
      qc.h(range(n_qubits))
      qc.x(range(n_qubits))
      qc.h(n_qubits - 1)
      qc.mcx(list(range(n_qubits - 1)), n_qubits - 1)
      qc.h(n_qubits - 1)
      qc.x(range(n_qubits))
      qc.h(range(n_qubits))
      qc.name = "Diffuser"
      return qc
  \<close>
\<close>

definition diffuser :: "nat \<Rightarrow> circuit" where
  "diffuser n_qubits =
     \<lparr>num_qubits = n_qubits, num_clbits = 0, name = Some ''Diffuser'',
      instructions =
        map H (qrange (int n_qubits)) @
        map X (qrange (int n_qubits)) @
        [H (int n_qubits - 1),
         MCX (qrange (int n_qubits - 1)) (int n_qubits - 1),
         H (int n_qubits - 1)] @
        map X (qrange (int n_qubits)) @
        map H (qrange (int n_qubits))\<rparr>"

text \<open>
  \<^verbatim>\<open>f"{target_index:0{n}b}"\<close>: the binary numeral of a non-negative integer, padded
  with zeros on the left to at least \<open>n\<close> characters.
\<close>

definition bit_char :: "nat \<Rightarrow> char" where
  "bit_char d = ''01'' ! d"

fun bin_digits :: "nat \<Rightarrow> string" where
  "bin_digits t = (if t < 2 then [bit_char t] else bin_digits (t div 2) @ [bit_char (t mod 2)])"

definition format_0nb :: "nat \<Rightarrow> nat \<Rightarrow> string" where
  "format_0nb target_index n =
     replicate (n - length (bin_digits target_index)) CHR ''0'' @ bin_digits target_index"

text \<open>
  \<^verbatim>\<open>
  def build_oracle(target_index, n):
      target_bin = f"{target_index:0{n}b}"
      oracle = QuantumCircuit(n)
      for i, bit in enumerate(reversed(target_bin)):
          if bit == '0':
              oracle.x(i)
      oracle.h(n - 1)
      oracle.mcx(list(range(n - 1)), n - 1)
      oracle.h(n - 1)
      for i, bit in enumerate(reversed(target_bin)):
          if bit == '0':
              oracle.x(i)
      oracle.name = "Oracle"
      return oracle
  \<close>
  \<open>x_where_zero\<close> is the loop over \<^verbatim>\<open>enumerate(reversed(target_bin))\<close>.
\<close>

fun x_where_zero :: "(nat \<times> char) list \<Rightarrow> gate list" where
  "x_where_zero [] = []"
| "x_where_zero ((i, b) # rest) = (if b = CHR ''0'' then [X (int i)] else []) @ x_where_zero rest"

definition build_oracle :: "nat \<Rightarrow> nat \<Rightarrow> circuit" where
  "build_oracle target_index n =
     (let target_bin = format_0nb target_index n
      in \<lparr>num_qubits = n, num_clbits = 0, name = Some ''Oracle'',
          instructions =
            x_where_zero (enumerate 0 (rev target_bin)) @
            [H (int n - 1), MCX (qrange (int n - 1)) (int n - 1), H (int n - 1)] @
            x_where_zero (enumerate 0 (rev target_bin))\<rparr>)"


text \<open>
  \<^verbatim>\<open>
  def grover_circuit_builder(target_index, n):
      oracle = build_oracle(target_index, n)
      diff = diffuser(n)
      qc = QuantumCircuit(n, n)
      qc.h(range(n))
      iterations = int(round((math.pi / 4) * math.sqrt(2 ** n)))
      for _ in range(iterations):
          qc.append(oracle.to_gate(), range(n))
          qc.append(diff.to_gate(), range(n))
      qc.measure(range(n), range(n))
      return qc, iterations, oracle, diff
  \<close>
  The iteration count is computed in double-precision floating point. \<^verbatim>\<open>math.pi\<close> is
  the double nearest to \<open>\<pi>\<close>; \<^verbatim>\<open>2 ** n\<close> is an exact integer, which \<^verbatim>\<open>math.sqrt\<close> converts to a
  double, raising \<^verbatim>\<open>OverflowError\<close> when it does not fit, that is from \<open>n = 1024\<close> on;
  the division, the square root and the product each return the double nearest to the
  exact result, a tie going to the even mantissa (\<open>fl\<close>, for the normal range of doubles,
  in which all values here lie). Python's \<^verbatim>\<open>round\<close> of a double is the nearest integer,
  a tie going to the even one.
\<close>

definition py_round :: "real \<Rightarrow> int" where
  "py_round x =
     (if frac x = 1 / 2 then (if even \<lfloor>x\<rfloor> then \<lfloor>x\<rfloor> else \<lfloor>x\<rfloor> + 1) else \<lfloor>x + 1 / 2\<rfloor>)"

definition fl :: "real \<Rightarrow> real" where
  "fl x =
     (if x = 0 then 0
      else (let ulp = 2 powr (real_of_int \<lfloor>log 2 \<bar>x\<bar>\<rfloor> - 52)
            in real_of_int (py_round (x / ulp)) * ulp))"

definition math_pi :: real where
  "math_pi = 884279719003555 / 2 ^ 48"

definition grover_iterations :: "nat \<Rightarrow> py_error + int" where
  "grover_iterations n =
     (if 1024 \<le> n then Inl OverflowError
      else Inr (py_round (fl (fl (math_pi / 4) * fl (sqrt (fl (2 ^ n)))))))"

definition to_gate :: "circuit \<Rightarrow> int list \<Rightarrow> gate" where
  "to_gate c qubits =
     Composite (case name c of Some s \<Rightarrow> s | None \<Rightarrow> []) (instructions c) qubits"

fun grover_loop :: "nat \<Rightarrow> gate \<Rightarrow> gate \<Rightarrow> gate list \<Rightarrow> gate list" where
  "grover_loop 0 oracle_gate diff_gate acc = acc"
| "grover_loop (Suc k) oracle_gate diff_gate acc =
     grover_loop k oracle_gate diff_gate (acc @ [oracle_gate, diff_gate])"

record grover_build =
  built_qc :: circuit
  built_iterations :: int
  built_oracle :: circuit
  built_diff :: circuit

definition grover_circuit_builder :: "nat \<Rightarrow> nat \<Rightarrow> py_error + grover_build" where
  "grover_circuit_builder target_index n =
     (let oracle = build_oracle target_index n;
          diff = diffuser n
      in case grover_iterations n of
           Inl e \<Rightarrow> Inl e
         | Inr iterations \<Rightarrow>
             Inr \<lparr>built_qc =
                    \<lparr>num_qubits = n, num_clbits = n, name = None,
                     instructions =
                       grover_loop (nat iterations)
                         (to_gate oracle (qrange (int n))) (to_gate diff (qrange (int n)))
                         (map H (qrange (int n))) @
                       map (\<lambda>i. Measure i i) (qrange (int n))\<rparr>,
                  built_iterations = iterations, built_oracle = oracle, built_diff = diff\<rparr>)"


section \<open>The entangling circuit (entangelment.py)\<close>

text \<open>
  \<^verbatim>\<open>
  qc = QuantumCircuit(2, 2)
  qc.h(0)
  qc.cx(0, 1)
  qc.measure(0, 0)
  qc.measure(1, 1)
  \<close>
\<close>

definition entangle_qc :: circuit where
  "entangle_qc =
     \<lparr>num_qubits = 2, num_clbits = 2, name = None,
      instructions = [H 0, CX 0 1, Measure 0 0, Measure 1 1]\<rparr>"

section \<open>Ideal outcome distribution of a circuit\<close>

text \<open>
  The scripts hand their circuits to the simulator of the quantum library, which is not
  part of the repository. What follows is the textbook state-vector meaning of the gates
  the scripts use, which is what that simulator computes without noise: a basis state
  gives the value of each qubit (qubit 0 first), a state vector gives the amplitude of each
  basis state, and after the gates the probability of a basis state is the squared modulus
  of its amplitude. A negative qubit argument counts from the end, as list indexing does.
  Only circuits whose measurements come last, and which hold no composite gates, are given
  a distribution; others yield \<open>None\<close>.
\<close>

type_synonym basis = "bool list"
type_synonym statevector = "basis \<Rightarrow> complex"

definition qubit_at :: "nat \<Rightarrow> int \<Rightarrow> nat" where
  "qubit_at n q = nat (if q < 0 then int n + q else q)"

definition flip :: "nat \<Rightarrow> basis \<Rightarrow> basis" where
  "flip i b = b[i := \<not> b ! i]"

fun apply_gate :: "nat \<Rightarrow> gate \<Rightarrow> statevector \<Rightarrow> statevector option" where
  "apply_gate n (H q) psi =
     Some (\<lambda>b. (psi (b[qubit_at n q := False])
                 + (if b ! qubit_at n q then - 1 else 1) * psi (b[qubit_at n q := True]))
               / complex_of_real (sqrt 2))"
| "apply_gate n (X q) psi = Some (\<lambda>b. psi (flip (qubit_at n q) b))"
| "apply_gate n (CX c t) psi =
     Some (\<lambda>b. if b ! qubit_at n c then psi (flip (qubit_at n t) b) else psi b)"
| "apply_gate n (MCX cs t) psi =
     Some (\<lambda>b. if list_all (\<lambda>c. b ! qubit_at n c) cs then psi (flip (qubit_at n t) b) else psi b)"
| "apply_gate n (Measure q c) psi = None"
| "apply_gate n (Composite nm gs qs) psi = None"

fun run_gates :: "nat \<Rightarrow> gate list \<Rightarrow> statevector \<Rightarrow> (statevector \<times> (int \<times> int) list) option" where
  "run_gates n [] psi = Some (psi, [])"
| "run_gates n (Measure q c # rest) psi =
     (if list_all (\<lambda>g. case g of Measure _ _ \<Rightarrow> True | _ \<Rightarrow> False) rest
      then Some (psi, (q, c) # map (\<lambda>g. case g of Measure q' c' \<Rightarrow> (q', c') | _ \<Rightarrow> (0, 0)) rest)
      else None)"
| "run_gates n (g # rest) psi =
     (case apply_gate n g psi of None \<Rightarrow> None | Some psi' \<Rightarrow> run_gates n rest psi')"

fun all_basis :: "nat \<Rightarrow> basis list" where
  "all_basis 0 = [[]]"
| "all_basis (Suc n) = concat (map (\<lambda>b. [b @ [False], b @ [True]]) (all_basis n))"

text \<open>
  Measuring a basis state writes the value of qubit \<open>q\<close> into classical bit \<open>c\<close> for each
  measurement \<open>(q, c)\<close>; the key under which the result is counted lists the classical
  bits from the last to the first.
\<close>

fun measure_all :: "nat \<Rightarrow> (int \<times> int) list \<Rightarrow> basis \<Rightarrow> bool list \<Rightarrow> bool list" where
  "measure_all n [] b creg = creg"
| "measure_all n ((q, c) # rest) b creg =
     measure_all n rest b (creg[qubit_at (length creg) c := b ! qubit_at n q])"

definition counts_key :: "bool list \<Rightarrow> string" where
  "counts_key creg = rev (map (\<lambda>v. if v then CHR ''1'' else CHR ''0'') creg)"

definition outcome_probability :: "circuit \<Rightarrow> string \<Rightarrow> real option" where
  "outcome_probability c key =
     (case run_gates (num_qubits c) (instructions c)
             (\<lambda>b. if b = replicate (num_qubits c) False then 1 else 0) of
        None \<Rightarrow> None
      | Some (psi, ms) \<Rightarrow>
          Some (sum_list (map (\<lambda>b. if counts_key (measure_all (num_qubits c) ms b
                                                    (replicate (num_clbits c) False)) = key
                                    then (cmod (psi b))\<^sup>2 else 0)
                              (all_basis (num_qubits c)))))"

text \<open>
  A composite gate appended on all the qubits of a circuit in their order, as the Grover
  builder appends the oracle and the diffuser, acts as the instructions of the circuit it
  was made from; \<open>inlined\<close> writes such gates out.
\<close>

fun inline_gate :: "nat \<Rightarrow> gate \<Rightarrow> gate list" where
  "inline_gate n (Composite nm gs qs) = (if qs = qrange (int n) then gs else [Composite nm gs qs])"
| "inline_gate n g = [g]"

definition inlined :: "circuit \<Rightarrow> circuit" where
  "inlined c = c\<lparr>instructions := concat (map (inline_gate (num_qubits c)) (instructions c))\<rparr>"


section \<open>Properties of the classical search\<close>

lemma classical_search_loop_found:
  assumes "target \<in> set xs"
  shows "\<exists>k<length xs. xs ! k = target \<and> (\<forall>j<k. xs ! j \<noteq> target) \<and>
           fst (classical_search_loop xs target vis i steps out) = (int (i + k), steps + k + 1)"
  using assms
proof (induction xs arbitrary: i steps out)
  case Nil
  then show ?case by simp
next
  case (Cons v rest)
  show ?case
  proof (cases "v = target")
    case True
    then have "fst (classical_search_loop (v # rest) target vis i steps out) = (int (i + 0), steps + 0 + 1)"
      by (simp add: Let_def)
    moreover have "(v # rest) ! 0 = target" using True by simp
    ultimately show ?thesis by blast
  next
    case False
    with Cons.prems have "target \<in> set rest" by simp
    from Cons.IH [OF this, of "i + 1" "steps + 1" "if vis then out @ [Checking (steps + 1) i v] else out"]
    obtain k where k: "k < length rest" "rest ! k = target" "\<forall>j<k. rest ! j \<noteq> target"
      "fst (classical_search_loop rest target vis (i + 1) (steps + 1)
             (if vis then out @ [Checking (steps + 1) i v] else out)) = (int (i + 1 + k), steps + 1 + k + 1)"
      by blast
    have a: "Suc k < length (v # rest)" using k(1) by simp
    have b: "(v # rest) ! Suc k = target" using k(2) by simp
    have c: "\<forall>j<Suc k. (v # rest) ! j \<noteq> target"
    proof (intro allI impI)
      fix j assume "j < Suc k"
      then show "(v # rest) ! j \<noteq> target"
        using False k(3) by (cases j) auto
    qed
    have d: "fst (classical_search_loop (v # rest) target vis i steps out) = (int (i + Suc k), steps + Suc k + 1)"
      using False k(4) by (cases vis) (simp_all add: Let_def)
    from a b c d show ?thesis by blast
  qed
qed

lemma classical_search_loop_absent:
  "target \<notin> set xs \<Longrightarrow>
     fst (classical_search_loop xs target vis i steps out) = (- 1, steps + length xs)"
  by (induction xs arbitrary: i steps out) (auto simp: Let_def)

lemma classical_search_loop_steps_le:
  "snd (fst (classical_search_loop xs target vis i steps out)) \<le> steps + length xs"
proof (induction xs arbitrary: i steps out)
  case Nil
  then show ?case by simp
next
  case (Cons v rest)
  show ?case
    using Cons.IH [of "i + 1" "steps + 1" "if vis then out @ [Checking (steps + 1) i v] else out"]
    by (cases vis) (simp_all add: Let_def)
qed

lemma classical_search_loop_written:
  "length (snd (classical_search_loop xs target True i steps out)) + steps
     = length out + snd (fst (classical_search_loop xs target True i steps out))"
proof (induction xs arbitrary: i steps out)
  case Nil
  then show ?case by simp
next
  case (Cons v rest)
  show ?case
    using Cons.IH [of "i + 1" "steps + 1" "out @ [Checking (steps + 1) i v]"]
    by (simp add: Let_def)
qed

text \<open>
  Claim C1. When the target occurs in the list, the search returns the index of its first
  occurrence together with a step count of that index plus one, and it visits at most
  \<open>N = length data\<close> elements: the step count, which is also the number of elements the
  visualising run reports as checked, never exceeds \<open>N\<close>.
\<close>

theorem classical_search_first_occurrence:
  assumes "target \<in> set data"
  shows "\<exists>k<length data. data ! k = target \<and> (\<forall>j<k. data ! j \<noteq> target) \<and>
           fst (classical_search data target visualize) = (int k, k + 1) \<and>
           snd (fst (classical_search data target visualize)) \<le> length data \<and>
           length (snd (classical_search data target True))
             = snd (fst (classical_search data target True))"
proof -
  from classical_search_loop_found [OF assms, of visualize 0 0 "[]"]
  obtain k where k: "k < length data" "data ! k = target" "\<forall>j<k. data ! j \<noteq> target"
    "fst (classical_search data target visualize) = (int k, k + 1)"
    by (auto simp: classical_search_def)
  have le: "snd (fst (classical_search data target visualize)) \<le> length data"
    using classical_search_loop_steps_le [of data target visualize 0 0 "[]"]
    by (simp add: classical_search_def)
  have wr: "length (snd (classical_search data target True))
              = snd (fst (classical_search data target True))"
    using classical_search_loop_written [of data target 0 0 "[]"]
    by (simp add: classical_search_def)
  from k le wr show ?thesis by blast
qed

theorem classical_search_first_occurrence_witness:
  "(7::int) \<in> set [5, 7, 9, 7] \<and>
   fst (classical_search [5, 7, 9, 7 :: int] 7 False) = (1, 2) \<and>
   snd (classical_search [5, 7, 9, 7 :: int] 7 True) = [Checking 1 0 5, Checking 2 1 7]"
proof -
  have h: "(7::int) \<in> set [5, 7, 9, 7]" by simp
  from classical_search_first_occurrence [OF h, of False]
  have "\<exists>k<length [5, 7, 9, 7 :: int]. fst (classical_search [5, 7, 9, 7 :: int] 7 False) = (int k, k + 1)"
    by blast
  moreover have "fst (classical_search [5, 7, 9, 7 :: int] 7 False) = (1, 2)"
    by (simp add: classical_search_def)
  moreover have "snd (classical_search [5, 7, 9, 7 :: int] 7 True) = [Checking 1 0 5, Checking 2 1 7]"
    by (simp add: classical_search_def)
  ultimately show ?thesis using h by blast
qed

text \<open>
  Claim C3. When the target does not occur in the list, the search returns the sentinel
  index \<open>-1\<close> with a step count equal to the length of the list.
\<close>

theorem classical_search_absent:
  assumes "target \<notin> set data"
  shows "fst (classical_search data target visualize) = (- 1, length data)"
  using classical_search_loop_absent [OF assms, of visualize 0 0 "[]"]
  by (simp add: classical_search_def)

theorem classical_search_absent_witness:
  "(4::int) \<notin> set [5, 7, 9] \<and> fst (classical_search [5, 7, 9 :: int] 4 False) = (- 1, 3)"
proof -
  have h: "(4::int) \<notin> set [5, 7, 9]" by simp
  from classical_search_absent [OF h, of False] h show ?thesis by simp
qed

section \<open>Properties of the BB84 post-processing\<close>

subsection \<open>The decimal numeral of an integer determines it\<close>

declare digits10.simps [simp del]

lemma digit_char_inj: "a < 10 \<Longrightarrow> b < 10 \<Longrightarrow> digit_char a = digit_char b \<Longrightarrow> a = b"
proof -
  assume a: "a < 10" and b: "b < 10" and e: "digit_char a = digit_char b"
  have d: "distinct ''0123456789''" by simp
  have "a < length ''0123456789''" "b < length ''0123456789''" using a b by simp_all
  with d e show "a = b" unfolding digit_char_def
    using nth_eq_iff_index_eq by blast
qed

lemma digit_char_not_minus: "d < 10 \<Longrightarrow> digit_char d \<noteq> CHR ''-''"
proof -
  assume "d < 10"
  then have "digit_char d \<in> set ''0123456789''"
    unfolding digit_char_def by (intro nth_mem) simp
  then show ?thesis by auto
qed

lemma digits10_small: "n < 10 \<Longrightarrow> digits10 n = [digit_char n]"
  by (simp add: digits10.simps)

lemma digits10_big: "\<not> n < 10 \<Longrightarrow> digits10 n = digits10 (n div 10) @ [digit_char (n mod 10)]"
  by (subst digits10.simps) simp

lemma digits10_nonempty: "digits10 n \<noteq> []"
  by (cases "n < 10") (simp_all add: digits10_small digits10_big)

lemma digits10_hd: "hd (digits10 n) \<noteq> CHR ''-''"
proof (induction n rule: digits10.induct)
  case (1 n)
  show ?case
  proof (cases "n < 10")
    case True
    then show ?thesis by (simp add: digits10_small digit_char_not_minus)
  next
    case False
    then show ?thesis using 1 digits10_nonempty [of "n div 10"]
      by (simp add: digits10_big)
  qed
qed

lemma digits10_inj: "digits10 a = digits10 b \<Longrightarrow> a = b"
proof (induction a arbitrary: b rule: digits10.induct)
  case (1 n)
  show ?case
  proof (cases "n < 10")
    case True
    show ?thesis
    proof (cases "b < 10")
      case True
      with \<open>n < 10\<close> 1(2) show ?thesis by (simp add: digits10_small digit_char_inj)
    next
      case False
      with \<open>n < 10\<close> 1(2) digits10_nonempty [of "b div 10"] show ?thesis
        by (simp add: digits10_small digits10_big)
    qed
  next
    case False
    show ?thesis
    proof (cases "b < 10")
      case True
      with False 1(2) digits10_nonempty [of "n div 10"] show ?thesis
        by (simp add: digits10_small digits10_big)
    next
      case bb: False
      from False bb 1(2) have e: "digits10 (n div 10) = digits10 (b div 10)"
        and d: "digit_char (n mod 10) = digit_char (b mod 10)"
        by (simp_all add: digits10_big)
      from 1(1) [OF False e] have "n div 10 = b div 10" .
      moreover from d have "n mod 10 = b mod 10" by (intro digit_char_inj) simp_all
      ultimately show ?thesis by (metis div_mult_mod_eq)
    qed
  qed
qed

lemma py_str_inj: "py_str a = py_str b \<Longrightarrow> a = b"
proof -
  assume e: "py_str a = py_str b"
  have hd_neg: "\<And>i. i < 0 \<Longrightarrow> hd (py_str i) = CHR ''-''" by (simp add: py_str_def)
  have hd_pos: "\<And>i. \<not> i < 0 \<Longrightarrow> hd (py_str i) \<noteq> CHR ''-''" by (simp add: py_str_def digits10_hd)
  show "a = b"
  proof (cases "a < 0")
    case True
    then have "b < 0" using e hd_neg [of a] hd_pos [of b] by metis
    with True e have "digits10 (nat (- a)) = digits10 (nat (- b))" by (simp add: py_str_def)
    then have "nat (- a) = nat (- b)" by (rule digits10_inj)
    with True \<open>b < 0\<close> show ?thesis by simp
  next
    case False
    then have "\<not> b < 0" using e hd_neg [of b] hd_pos [of a] by metis
    with False e have "digits10 (nat a) = digits10 (nat b)" by (simp add: py_str_def)
    then have "nat a = nat b" by (rule digits10_inj)
    with False \<open>\<not> b < 0\<close> show ?thesis by simp
  qed
qed


subsection \<open>Sifting\<close>

lemma matching_loop_in_range:
  "\<forall>i\<in>set idxs. i < length ab \<and> i < length bb \<Longrightarrow>
     matching_loop idxs ab bb = Inr (filter (\<lambda>i. ab ! i = bb ! i) idxs)"
  by (induction idxs) (simp_all add: py_getitem_def)

lemma select_loop_in_range:
  "\<forall>i\<in>set idxs. i < length xs \<Longrightarrow> select_loop xs idxs = Inr (map (\<lambda>i. xs ! i) idxs)"
  by (induction idxs) (simp_all add: py_getitem_def)

lemma select_loop_length:
  "select_loop xs idxs = Inr r \<Longrightarrow> length r = length idxs"
  by (induction idxs arbitrary: r) (auto split: sum.splits)

lemma sift_lengths:
  assumes "sift n bits ab bb res = Inr s"
  shows "length (alice_key s) = length (matching_indices s)"
    and "length (bob_key s) = length (matching_indices s)"
  using assms
  by (auto simp: sift_def split: sum.splits dest: select_loop_length)

text \<open>
  Claim C8. For all lists of Alice's bits, Alice's bases, Bob's bases and Bob's results of
  length \<open>num_bits\<close>, sifting succeeds and keeps exactly the positions where the two
  bases agree, in increasing index order: both keys have the length of the list of
  matching indices, which is the number of matching positions, and the \<open>j\<close>-th entry of
  each key is the bit (Alice's bit, Bob's result) at the \<open>j\<close>-th matching index.
\<close>

theorem sift_keeps_matching_positions:
  assumes "length alice_bits = num_bits" and "length alice_bases = num_bits"
    and "length bob_bases = num_bits" and "length bob_results = num_bits"
  shows "\<exists>s. sift num_bits alice_bits alice_bases bob_bases bob_results = Inr s \<and>
           matching_indices s = filter (\<lambda>i. alice_bases ! i = bob_bases ! i) [0..<num_bits] \<and>
           sorted_wrt (<) (matching_indices s) \<and>
           set (matching_indices s) = {i. i < num_bits \<and> alice_bases ! i = bob_bases ! i} \<and>
           length (matching_indices s) = card {i. i < num_bits \<and> alice_bases ! i = bob_bases ! i} \<and>
           length (alice_key s) = length (matching_indices s) \<and>
           length (bob_key s) = length (matching_indices s) \<and>
           (\<forall>j<length (matching_indices s).
              alice_key s ! j = alice_bits ! (matching_indices s ! j) \<and>
              bob_key s ! j = bob_results ! (matching_indices s ! j))"
proof -
  define mi where "mi = filter (\<lambda>i. alice_bases ! i = bob_bases ! i) [0..<num_bits]"
  define s where "s = \<lparr>matching_indices = mi, alice_key = map (\<lambda>i. alice_bits ! i) mi,
                        bob_key = map (\<lambda>i. bob_results ! i) mi\<rparr>"
  have m: "matching_loop [0..<num_bits] alice_bases bob_bases = Inr mi"
    unfolding mi_def using assms(2,3) by (intro matching_loop_in_range) simp
  have sub: "\<forall>i\<in>set mi. i < num_bits" by (simp add: mi_def)
  have a: "select_loop alice_bits mi = Inr (map (\<lambda>i. alice_bits ! i) mi)"
    using sub assms(1) by (intro select_loop_in_range) simp
  have b: "select_loop bob_results mi = Inr (map (\<lambda>i. bob_results ! i) mi)"
    using sub assms(4) by (intro select_loop_in_range) simp
  have r: "sift num_bits alice_bits alice_bases bob_bases bob_results = Inr s"
    by (simp add: sift_def m a b s_def)
  have srt: "sorted_wrt (<) mi"
    unfolding mi_def by (intro sorted_wrt_filter) simp
  have st: "set mi = {i. i < num_bits \<and> alice_bases ! i = bob_bases ! i}"
    by (auto simp: mi_def)
  have "distinct mi" by (simp add: mi_def)
  then have cd: "length mi = card {i. i < num_bits \<and> alice_bases ! i = bob_bases ! i}"
    using st distinct_card by metis
  have sel: "\<forall>j<length mi. alice_key s ! j = alice_bits ! (mi ! j) \<and> bob_key s ! j = bob_results ! (mi ! j)"
    by (simp add: s_def)
  have "matching_indices s = mi" "length (alice_key s) = length mi" "length (bob_key s) = length mi"
    by (simp_all add: s_def)
  with r srt st cd sel show ?thesis
    unfolding mi_def [symmetric] by (intro exI [of _ s]) simp
qed

theorem sift_keeps_matching_positions_witness:
  "sift 4 [1, 0, 1, 1] ''ZXZX'' ''ZZXX'' [1, 1, 0, 1]
     = Inr \<lparr>matching_indices = [0, 3], alice_key = [1, 1], bob_key = [1, 1]\<rparr>"
proof -
  have l: "length [1, 0, 1, 1 :: int] = 4" "length ''ZXZX'' = 4" "length ''ZZXX'' = 4"
    "length [1, 1, 0, 1 :: int] = 4" by simp_all
  from sift_keeps_matching_positions [OF l]
  obtain s where s: "sift 4 [1, 0, 1, 1] ''ZXZX'' ''ZZXX'' [1, 1, 0, 1] = Inr s"
    "matching_indices s = filter (\<lambda>i. ''ZXZX'' ! i = ''ZZXX'' ! i) [0..<4]"
    "length (alice_key s) = length (matching_indices s)"
    "length (bob_key s) = length (matching_indices s)"
    "\<forall>j<length (matching_indices s).
        alice_key s ! j = [1, 0, 1, 1] ! (matching_indices s ! j) \<and>
        bob_key s ! j = [1, 1, 0, 1] ! (matching_indices s ! j)"
    by blast
  have u: "[0..<4] = [0, 1, 2, 3]" by (simp add: upt_conv_Cons)
  have mi: "matching_indices s = [0, 3]" using s(2) by (simp add: u)
  have ak: "alice_key s = [1, 1]"
    using s(3,5) mi by (intro nth_equalityI) (auto simp: less_Suc_eq)
  have bk: "bob_key s = [1, 1]"
    using s(4,5) mi by (intro nth_equalityI) (auto simp: less_Suc_eq)
  have "s = \<lparr>matching_indices = [0, 3], alice_key = [1, 1], bob_key = [1, 1]\<rparr>"
    using mi ak bk by simp
  with s(1) show ?thesis by simp
qed

subsection \<open>Key agreement\<close>

lemma matches_le_length:
  "sum_list (map (\<lambda>(a, b). if a = b then 1 else 0) (zip xs ys)) \<le> (length xs :: nat)"
proof -
  have "sum_list (map (\<lambda>(a, b). if a = b then 1 else 0) zs) \<le> (length zs :: nat)" for zs :: "('a \<times> 'a) list"
    by (induction zs) auto
  from this [of "zip xs ys"] show ?thesis by simp
qed

lemma matches_eq_filter:
  "sum_list (map (\<lambda>(a, b). if a = b then 1 else 0) zs) = (length (filter (\<lambda>(a, b). a = b) zs) :: nat)"
  by (induction zs) auto

text \<open>
  Claim C9. On the keys produced by sifting, the agreement computation never divides by
  zero: it always returns a result. When no bases match (\<open>total = 0\<close>) the accuracy is
  \<open>0\<close>; when \<open>total > 0\<close> it is \<open>matches / total * 100\<close>, where \<open>matches\<close> counts the
  positions at which the two sifted keys agree; in both cases it lies between \<open>0\<close> and
  \<open>100\<close>.
\<close>

theorem key_agreement_accuracy:
  assumes "sift num_bits alice_bits alice_bases bob_bases bob_results = Inr s"
  shows "\<exists>r. key_agreement s = Inr r \<and>
           total r = length (matching_indices s) \<and>
           matches r = length (filter (\<lambda>(a, b). a = b) (zip (alice_key s) (bob_key s))) \<and>
           (total r = 0 \<longrightarrow> accuracy r = 0) \<and>
           (total r > 0 \<longrightarrow> accuracy r = real (matches r) / real (total r) * 100) \<and>
           0 \<le> accuracy r \<and> accuracy r \<le> 100"
proof -
  define m :: nat where
    "m = sum_list (map (\<lambda>(a, b). if a = b then 1 else 0) (zip (alice_key s) (bob_key s)))"
  define t where "t = length (matching_indices s)"
  have mf: "m = length (filter (\<lambda>(a, b). a = b) (zip (alice_key s) (bob_key s)))"
    unfolding m_def by (rule matches_eq_filter)
  have "m \<le> length (alice_key s)" unfolding m_def by (rule matches_le_length)
  then have mt: "m \<le> t" using sift_lengths(1) [OF assms] by (simp add: t_def)
  show ?thesis
  proof (cases "t > 0")
    case True
    define r where "r = \<lparr>matches = m, total = t, accuracy = real m / real t * 100\<rparr>"
    have k: "key_agreement s = Inr r"
      using True by (simp add: key_agreement_def Let_def py_truediv_def r_def m_def [symmetric] t_def [symmetric])
    have "real m / real t \<le> 1" using mt True by simp
    then have "real m / real t * 100 \<le> 1 * 100" by (intro mult_right_mono) simp_all
    then have ub: "accuracy r \<le> 100" by (simp add: r_def del: times_divide_eq_left)
    have lb: "0 \<le> accuracy r" by (simp add: r_def)
    from k ub lb True mf show ?thesis
      by (intro exI [of _ r]) (simp add: r_def t_def)
  next
    case False
    define r where "r = \<lparr>matches = m, total = t, accuracy = 0\<rparr>"
    have k: "key_agreement s = Inr r"
      using False by (simp add: key_agreement_def Let_def r_def m_def [symmetric] t_def [symmetric])
    from k False mf show ?thesis
      by (intro exI [of _ r]) (simp add: r_def t_def)
  qed
qed


theorem key_agreement_accuracy_witness:
  "sift 4 [1, 0, 1, 1] ''ZXZX'' ''ZZXX'' [1, 1, 0, 0]
     = Inr \<lparr>matching_indices = [0, 3], alice_key = [1, 1], bob_key = [1, 0]\<rparr> \<and>
   key_agreement \<lparr>matching_indices = [0, 3], alice_key = [1, 1], bob_key = [1, 0]\<rparr>
     = Inr \<lparr>matches = 1, total = 2, accuracy = 50\<rparr> \<and>
   sift 2 [1, 0] ''ZX'' ''XZ'' [1, 1]
     = Inr \<lparr>matching_indices = [], alice_key = [], bob_key = []\<rparr> \<and>
   key_agreement \<lparr>matching_indices = [], alice_key = [], bob_key = []\<rparr>
     = Inr \<lparr>matches = 0, total = 0, accuracy = 0\<rparr>"
proof -
  have s1: "sift 4 [1, 0, 1, 1] ''ZXZX'' ''ZZXX'' [1, 1, 0, 0]
              = Inr \<lparr>matching_indices = [0, 3], alice_key = [1, 1], bob_key = [1, 0]\<rparr>"
    by (simp add: sift_def py_getitem_def upt_conv_Cons)
  have s2: "sift 2 [1, 0] ''ZX'' ''XZ'' [1, 1]
              = Inr \<lparr>matching_indices = [], alice_key = [], bob_key = []\<rparr>"
    by (simp add: sift_def py_getitem_def upt_conv_Cons)
  from key_agreement_accuracy [OF s1]
  obtain r1 where r1:
    "key_agreement \<lparr>matching_indices = [0, 3], alice_key = [1, 1], bob_key = [1, 0]\<rparr> = Inr r1"
    and t1: "total r1 = length [0, 3 :: nat]"
    and m1: "matches r1 = length (filter (\<lambda>(a, b). a = b) (zip [1, 1 :: int] [1, 0]))"
    and a1: "total r1 > 0 \<longrightarrow> accuracy r1 = real (matches r1) / real (total r1) * 100"
    by fastforce
  from key_agreement_accuracy [OF s2]
  obtain r2 where r2:
    "key_agreement \<lparr>matching_indices = [], alice_key = [], bob_key = []\<rparr> = Inr r2"
    and t2: "total r2 = length ([] :: nat list)"
    and m2: "matches r2 = length (filter (\<lambda>(a, b). a = b) (zip ([] :: int list) []))"
    and a2: "total r2 = 0 \<longrightarrow> accuracy r2 = 0"
    by fastforce
  have "r1 = \<lparr>matches = 1, total = 2, accuracy = 50\<rparr>" using t1 m1 a1 by simp
  moreover have "r2 = \<lparr>matches = 0, total = 0, accuracy = 0\<rparr>" using t2 m2 a2 by simp
  ultimately show ?thesis using r1 r2 s1 s2 by simp
qed

subsection \<open>Histogram of Bob's results\<close>

lemma fold_counts_step:
  "fold counts_step xs m k =
     (let c = length (filter (\<lambda>b. py_str b = k) xs)
      in if c = 0 then m k else Some ((case m k of None \<Rightarrow> 0 | Some v \<Rightarrow> v) + c))"
proof (induction xs arbitrary: m)
  case Nil
  then show ?case by simp
next
  case (Cons x xs)
  have step: "counts_step x m k =
      (if py_str x = k then Some ((case m k of None \<Rightarrow> 0 | Some v \<Rightarrow> v) + 1) else m k)"
    by (auto simp: counts_step_def)
  have "fold counts_step (x # xs) m k = fold counts_step xs (counts_step x m) k" by simp
  also have "\<dots> = (let c = length (filter (\<lambda>b. py_str b = k) xs)
      in if c = 0 then counts_step x m k
         else Some ((case counts_step x m k of None \<Rightarrow> 0 | Some v \<Rightarrow> v) + c))"
    by (rule Cons.IH)
  also have "\<dots> = (let c = length (filter (\<lambda>b. py_str b = k) (x # xs))
      in if c = 0 then m k else Some ((case m k of None \<Rightarrow> 0 | Some v \<Rightarrow> v) + c))"
    by (simp add: step Let_def)
  finally show ?case .
qed

lemma histogram_lookup:
  "histogram xs k =
     (if filter (\<lambda>b. py_str b = k) xs = [] then None else Some (length (filter (\<lambda>b. py_str b = k) xs)))"
  by (simp add: histogram_def fold_counts_step Let_def)

lemma histogram_at_str:
  "histogram xs (py_str b) = (if b \<in> set xs then Some (count_list xs b) else None)"
proof -
  have "filter (\<lambda>b'. py_str b' = py_str b) xs = filter (\<lambda>b'. b' = b) xs"
    by (intro filter_cong) (auto dest: py_str_inj)
  moreover have "length (filter (\<lambda>b'. b' = b) xs) = count_list xs b"
    by (induction xs) auto
  moreover have "filter (\<lambda>b'. b' = b) xs = [] \<longleftrightarrow> b \<notin> set xs"
    by (auto simp: filter_empty_conv)
  ultimately show ?thesis by (simp add: histogram_lookup)
qed

lemma histogram_dom: "dom (histogram xs) = py_str ` set xs"
  by (auto simp: dom_def histogram_lookup filter_empty_conv)

text \<open>
  Claim C10. For every list of Bob's results, the dictionary built by the page maps the
  string form of each result to the number of its occurrences in the list, has no other
  keys, and its values sum to the length of the list.
\<close>

theorem histogram_counts_occurrences:
  "(\<forall>b\<in>set bob_results. histogram bob_results (py_str b) = Some (count_list bob_results b)) \<and>
   dom (histogram bob_results) = py_str ` set bob_results \<and>
   (\<Sum>k\<in>dom (histogram bob_results). the (histogram bob_results k)) = length bob_results"
proof -
  have inj: "inj_on py_str (set bob_results)"
    by (rule inj_onI) (rule py_str_inj)
  have "(\<Sum>k\<in>dom (histogram bob_results). the (histogram bob_results k))
          = (\<Sum>b\<in>set bob_results. the (histogram bob_results (py_str b)))"
    by (simp add: histogram_dom sum.reindex [OF inj])
  also have "\<dots> = (\<Sum>b\<in>set bob_results. count_list bob_results b)"
    by (intro sum.cong) (simp_all add: histogram_at_str)
  also have "\<dots> = length bob_results"
    by (intro sum_count_set) simp_all
  finally show ?thesis
    by (simp add: histogram_at_str histogram_dom)
qed

theorem histogram_counts_occurrences_witness:
  "histogram [0, 1, 1, 0, 1] ''0'' = Some 2 \<and> histogram [0, 1, 1, 0, 1] ''1'' = Some 3 \<and>
   (\<Sum>k\<in>dom (histogram [0, 1, 1, 0, 1]). the (histogram [0, 1, 1, 0, 1] k)) = 5"
proof -
  have s: "py_str 0 = ''0''" "py_str 1 = ''1''"
    by (simp_all add: py_str_def digits10_small digit_char_def)
  note h = histogram_counts_occurrences [of "[0, 1, 1, 0, 1]"]
  from h have a: "\<forall>b\<in>set [0, 1, 1, 0, 1]. histogram [0, 1, 1, 0, 1] (py_str b)
      = Some (count_list [0, 1, 1, 0, 1 :: int] b)" by (rule conjunct1)
  have c: "(\<Sum>k\<in>dom (histogram [0, 1, 1, 0, 1]). the (histogram [0, 1, 1, 0, 1] k))
      = length [0, 1, 1, 0, 1 :: int]" by (rule h [THEN conjunct2, THEN conjunct2])
  have "histogram [0, 1, 1, 0, 1] (py_str 0) = Some (count_list [0, 1, 1, 0, 1 :: int] 0)"
    using a by simp
  then have z: "histogram [0, 1, 1, 0, 1] ''0'' = Some 2"
    unfolding s by simp
  have "histogram [0, 1, 1, 0, 1] (py_str 1) = Some (count_list [0, 1, 1, 0, 1 :: int] 1)"
    using a by simp
  then have o: "histogram [0, 1, 1, 0, 1] ''1'' = Some 3"
    unfolding s by simp
  have l: "length [0, 1, 1, 0, 1 :: int] = 5" by simp
  have "(\<Sum>k\<in>dom (histogram [0, 1, 1, 0, 1]). the (histogram [0, 1, 1, 0, 1] k)) = 5"
    using c unfolding l .
  with z o show ?thesis by blast
qed

section \<open>Properties of the simulator import\<close>

text \<open>
  Claim C5. If both import paths raise \<^verbatim>\<open>ImportError\<close>, the page shows the error
  message and halts. If the first import succeeds the page goes on with
  \<^verbatim>\<open>qiskit_aer.Aer\<close>, and if only the second succeeds it goes on with
  \<^verbatim>\<open>qiskit.providers.aer.Aer\<close>; in both cases no error is shown.
\<close>

theorem import_aer_fallback:
  "(qiskit_aer = Raises_ImportError \<and> providers_aer = Raises_ImportError \<longrightarrow>
      stopped (import_aer qiskit_aer providers_aer) \<and>
      st_errors (import_aer qiskit_aer providers_aer)
        = [''Qiskit Aer simulator not found. Please install qiskit-aer.''] \<and>
      aer (import_aer qiskit_aer providers_aer) = None) \<and>
   (qiskit_aer = Imported \<longrightarrow>
      \<not> stopped (import_aer qiskit_aer providers_aer) \<and>
      st_errors (import_aer qiskit_aer providers_aer) = [] \<and>
      aer (import_aer qiskit_aer providers_aer) = Some Qiskit_aer) \<and>
   (qiskit_aer = Raises_ImportError \<and> providers_aer = Imported \<longrightarrow>
      \<not> stopped (import_aer qiskit_aer providers_aer) \<and>
      st_errors (import_aer qiskit_aer providers_aer) = [] \<and>
      aer (import_aer qiskit_aer providers_aer) = Some Qiskit_providers_aer)"
  by (cases qiskit_aer; cases providers_aer) (simp_all add: import_aer_def)

theorem import_aer_fallback_witness:
  "stopped (import_aer Raises_ImportError Raises_ImportError) \<and>
   aer (import_aer Imported Raises_ImportError) = Some Qiskit_aer \<and>
   aer (import_aer Raises_ImportError Imported) = Some Qiskit_providers_aer \<and>
   st_errors (import_aer Raises_ImportError Imported) = []"
  using import_aer_fallback [of Raises_ImportError Raises_ImportError]
    import_aer_fallback [of Imported Raises_ImportError]
    import_aer_fallback [of Raises_ImportError Imported]
  by simp


section \<open>Properties of the session state\<close>

lemma random_choice_member:
  "seq \<noteq> [] \<Longrightarrow> \<exists>t. random_choice r seq = Inr t \<and> t \<in> set seq"
  by (simp add: random_choice_def)

lemma py_range_nonempty: "0 < n \<Longrightarrow> py_range n \<noteq> []"
  by (simp add: py_range_def)

lemma init_session_same:
  "ss_data ss \<noteq> None \<Longrightarrow> ss_num_items ss = Some n \<Longrightarrow> init_session r n ss = (Completed, ss)"
  by (auto simp: init_session_def)

lemma init_session_ok:
  assumes "0 < n" and "session_ok ss \<or> ss = empty_session"
  shows "\<exists>ss1. init_session r n ss = (Completed, ss1) \<and> session_ok ss1 \<and> ss_num_items ss1 = Some n"
proof (cases "ss_data ss = None \<or> ss_num_items ss \<noteq> Some n")
  case True
  from random_choice_member [OF py_range_nonempty [OF assms(1)], of r]
  obtain t where t: "random_choice r (py_range n) = Inr t" "t \<in> set (py_range n)" by blast
  with True show ?thesis
    by (simp add: init_session_def Let_def session_ok_def)
next
  case False
  then have "init_session r n ss = (Completed, ss)" by (auto simp: init_session_def)
  moreover from False assms(2) have "session_ok ss" by (auto simp: empty_session_def)
  ultimately show ?thesis using False by simp
qed

lemma run_once_no_reset:
  assumes "session_ok ss1" and "ss_num_items ss1 = Some (num_items w)" and "\<not> reset_target w"
  shows "run_once w r r' ss1 = (Completed, ss1)"
proof -
  from assms(1) obtain d t where dt: "ss_data ss1 = Some d" "ss_target ss1 = Some t" "t \<in> set d"
    by (auto simp: session_ok_def split: option.splits)
  then have "init_session r (num_items w) ss1 = (Completed, ss1)"
    using assms(2) by (simp add: init_session_same)
  with dt assms(3) show ?thesis by (simp add: run_once_def)
qed

lemma run_once_ok:
  assumes "0 < num_items w" and "session_ok ss \<or> ss = empty_session"
  shows "\<exists>e ss2. run_once w r r' ss = (e, ss2) \<and> session_ok ss2 \<and>
           ss_num_items ss2 = Some (num_items w) \<and>
           (e = (if reset_target w then Rerun else Completed))"
proof -
  from init_session_ok [OF assms, of r]
  obtain ss1 where ss1: "init_session r (num_items w) ss = (Completed, ss1)" "session_ok ss1"
    "ss_num_items ss1 = Some (num_items w)" by blast
  from ss1(2) obtain d t n where dt: "ss_data ss1 = Some d" "ss_target ss1 = Some t"
    "ss_num_items ss1 = Some n" "d = py_range n" "t \<in> set d"
    by (auto simp: session_ok_def split: option.splits)
  show ?thesis
  proof (cases "reset_target w")
    case True
    from dt(5) have "d \<noteq> []" by auto
    from random_choice_member [OF this, of r']
    obtain t' where t': "random_choice r' d = Inr t'" "t' \<in> set d" by blast
    have "run_once w r r' ss = (Rerun, ss1\<lparr>ss_target := Some t'\<rparr>)"
      using ss1(1) dt True t' by (simp add: run_once_def)
    moreover have "session_ok (ss1\<lparr>ss_target := Some t'\<rparr>)"
      using dt t' by (simp add: session_ok_def)
    ultimately show ?thesis using True ss1(3) by simp
  next
    case False
    have "run_once w r r' ss = (Completed, ss1)"
      using ss1(1) dt False by (simp add: run_once_def)
    then show ?thesis using False ss1(2,3) by simp
  qed
qed

text \<open>
  Claim C6. From a session state left by an earlier run, and for any values of the widgets
  (the number of items being one of the options of the select box): when the selected
  number of items is the stored one and Reset Target is not pressed, the run leaves the
  whole session state, and so the target, unchanged, whatever the other widgets and the
  random draws are. In every case the run completes and the target is again a member of
  the session data list.
\<close>

theorem session_target_stable:
  assumes "session_ok ss" and "num_items w \<in> {4, 8, 16, 32}"
  shows "(ss_num_items ss = Some (num_items w) \<and> \<not> reset_target w \<longrightarrow>
            run_page w r_init r_reset r_again ss = (Completed, ss)) \<and>
         fst (run_page w r_init r_reset r_again ss) = Completed \<and>
         session_ok (snd (run_page w r_init r_reset r_again ss))"
proof -
  from assms(2) have pos: "0 < num_items w" by auto
  have frame: "run_page w r_init r_reset r_again ss = (Completed, ss)"
    if "ss_num_items ss = Some (num_items w)" "\<not> reset_target w"
    using run_once_no_reset [OF assms(1) that] by (simp add: run_page_def)
  from run_once_ok [OF pos, of ss r_init r_reset] assms(1)
  obtain e ss2 where r: "run_once w r_init r_reset ss = (e, ss2)" "session_ok ss2"
    "ss_num_items ss2 = Some (num_items w)" "e = (if reset_target w then Rerun else Completed)"
    by blast
  have "fst (run_page w r_init r_reset r_again ss) = Completed \<and>
        session_ok (snd (run_page w r_init r_reset r_again ss))"
  proof (cases "reset_target w")
    case True
    have "run_once (w\<lparr>reset_target := False\<rparr>) r_again r_again ss2 = (Completed, ss2)"
      using r(2,3) by (intro run_once_no_reset) simp_all
    with r True show ?thesis by (simp add: run_page_def)
  next
    case False
    with r show ?thesis by (simp add: run_page_def)
  qed
  with frame show ?thesis by blast
qed


theorem session_target_stable_witness:
  "session_ok \<lparr>ss_data = Some [0, 1, 2, 3], ss_target = Some 2, ss_num_items = Some 4\<rparr> \<and>
   run_page \<lparr>num_items = 4, reset_target = False, show_data = True, run_classical = True,
             run_grover = False\<rparr> 1 3 5
      \<lparr>ss_data = Some [0, 1, 2, 3], ss_target = Some 2, ss_num_items = Some 4\<rparr>
     = (Completed, \<lparr>ss_data = Some [0, 1, 2, 3], ss_target = Some 2, ss_num_items = Some 4\<rparr>) \<and>
   session_ok (snd (run_page \<lparr>num_items = 4, reset_target = True, show_data = False,
             run_classical = False, run_grover = False\<rparr> 1 3 5
      \<lparr>ss_data = Some [0, 1, 2, 3], ss_target = Some 2, ss_num_items = Some 4\<rparr>))"
proof -
  have r: "py_range 4 = [0, 1, 2, 3]" by (simp add: py_range_def upt_conv_Cons)
  have ok: "session_ok \<lparr>ss_data = Some [0, 1, 2, 3], ss_target = Some 2, ss_num_items = Some 4\<rparr>"
    by (simp add: session_ok_def r)
  have n1: "num_items \<lparr>num_items = 4, reset_target = False, show_data = True,
      run_classical = True, run_grover = False\<rparr> \<in> {4, 8, 16, 32}" by simp
  have n2: "num_items \<lparr>num_items = 4, reset_target = True, show_data = False,
      run_classical = False, run_grover = False\<rparr> \<in> {4, 8, 16, 32}" by simp
  from session_target_stable [OF ok n1, of 1 3 5] session_target_stable [OF ok n2, of 1 3 5] ok
  show ?thesis by simp
qed

text \<open>
  The first run of a session, and the two events that draw a new target.
\<close>

lemma run_page_first_run:
  assumes "num_items w \<in> {4, 8, 16, 32}"
  shows "fst (run_page w r_init r_reset r_again empty_session) = Completed \<and>
         session_ok (snd (run_page w r_init r_reset r_again empty_session))"
proof -
  from assms have pos: "0 < num_items w" by auto
  from run_once_ok [OF pos, of empty_session r_init r_reset]
  obtain e ss2 where r: "run_once w r_init r_reset empty_session = (e, ss2)" "session_ok ss2"
    "ss_num_items ss2 = Some (num_items w)" "e = (if reset_target w then Rerun else Completed)"
    by blast
  show ?thesis
  proof (cases "reset_target w")
    case True
    have "run_once (w\<lparr>reset_target := False\<rparr>) r_again r_again ss2 = (Completed, ss2)"
      using r(2,3) by (intro run_once_no_reset) simp_all
    with r True show ?thesis by (simp add: run_page_def)
  next
    case False
    with r show ?thesis by (simp add: run_page_def)
  qed
qed

lemma run_page_redraws_on_change:
  assumes "session_ok ss" and "num_items w \<in> {4, 8, 16, 32}"
    and "ss_num_items ss \<noteq> Some (num_items w)" and "\<not> reset_target w"
  shows "run_page w r_init r_reset r_again ss =
           (Completed, \<lparr>ss_data = Some (py_range (num_items w)),
                         ss_target = Some (py_range (num_items w) ! (r_init mod nat (num_items w))),
                         ss_num_items = Some (num_items w)\<rparr>)"
proof -
  from assms(2) have pos: "0 < num_items w" by auto
  have l: "length (py_range (num_items w)) = nat (num_items w)" by (simp add: py_range_def)
  have ne: "py_range (num_items w) \<noteq> []" using pos by (rule py_range_nonempty)
  have m: "py_range (num_items w) ! (r_init mod nat (num_items w)) \<in> set (py_range (num_items w))"
    using pos l by (intro nth_mem) simp
  have i: "init_session r_init (num_items w) ss =
           (Completed, \<lparr>ss_data = Some (py_range (num_items w)),
                         ss_target = Some (py_range (num_items w) ! (r_init mod nat (num_items w))),
                         ss_num_items = Some (num_items w)\<rparr>)"
    using assms(3) ne by (simp add: init_session_def random_choice_def Let_def l)
  show ?thesis using assms(4) m by (simp add: run_page_def run_once_def i)
qed

lemma run_page_redraws_on_reset:
  assumes "ss_data ss = Some d" and "ss_target ss = Some t" and "t \<in> set d"
    and "ss_num_items ss = Some (num_items w)" and "reset_target w"
  shows "run_page w r_init r_reset r_again ss =
           (Completed, ss\<lparr>ss_target := Some (d ! (r_reset mod length d))\<rparr>)"
proof -
  from assms(3) have ne: "d \<noteq> []" by auto
  then have m: "d ! (r_reset mod length d) \<in> set d" by (intro nth_mem) simp
  have i: "init_session r_init (num_items w) ss = (Completed, ss)"
    using assms(1,4) by (simp add: init_session_same)
  have o: "run_once w r_init r_reset ss = (Rerun, ss\<lparr>ss_target := Some (d ! (r_reset mod length d))\<rparr>)"
    using assms(1,2,5) ne by (simp add: run_once_def i random_choice_def)
  have i2: "init_session r_again (num_items w) (ss\<lparr>ss_target := Some (d ! (r_reset mod length d))\<rparr>)
      = (Completed, ss\<lparr>ss_target := Some (d ! (r_reset mod length d))\<rparr>)"
    using assms(1,4) by (simp add: init_session_same)
  have o2: "run_once (w\<lparr>reset_target := False\<rparr>) r_again r_again
              (ss\<lparr>ss_target := Some (d ! (r_reset mod length d))\<rparr>)
      = (Completed, ss\<lparr>ss_target := Some (d ! (r_reset mod length d))\<rparr>)"
    using assms(1) m by (simp add: run_once_def i2)
  show ?thesis by (simp add: run_page_def o o2)
qed

section \<open>Properties of the oracle and the diffuser\<close>

declare bin_digits.simps [simp del]

lemma bin_digits_small: "t < 2 \<Longrightarrow> bin_digits t = [bit_char t]"
  by (simp add: bin_digits.simps)

lemma bin_digits_big: "\<not> t < 2 \<Longrightarrow> bin_digits t = bin_digits (t div 2) @ [bit_char (t mod 2)]"
  by (subst bin_digits.simps) simp

lemma bin_digits_length_pos: "0 < length (bin_digits t)"
  by (cases "t < 2") (simp_all add: bin_digits_small bin_digits_big)

lemma bin_digits_length_le: "t < 2 ^ n \<Longrightarrow> 1 \<le> n \<Longrightarrow> length (bin_digits t) \<le> n"
proof (induction t arbitrary: n rule: bin_digits.induct)
  case (1 t)
  show ?case
  proof (cases "t < 2")
    case True
    with 1(3) show ?thesis by (simp add: bin_digits_small)
  next
    case False
    obtain m where m: "n = Suc m" using 1(3) by (cases n) auto
    from False 1(2) m have "1 \<le> m" by (cases m) auto
    moreover from 1(2) m have "t div 2 < 2 ^ m" by auto
    ultimately have "length (bin_digits (t div 2)) \<le> m" using 1(1) [OF False] by blast
    with False m show ?thesis by (simp add: bin_digits_big)
  qed
qed

lemma bin_digits_bound: "t < 2 ^ length (bin_digits t)"
proof (induction t rule: bin_digits.induct)
  case (1 t)
  show ?case
  proof (cases "t < 2")
    case True
    then show ?thesis by (simp add: bin_digits_small)
  next
    case False
    from 1 [OF False] have "t div 2 < 2 ^ length (bin_digits (t div 2))" .
    then have "t < 2 * 2 ^ length (bin_digits (t div 2))" by auto
    with False show ?thesis by (simp add: bin_digits_big)
  qed
qed

lemma rev_bin_digits_nth:
  "i < length (bin_digits t) \<Longrightarrow> rev (bin_digits t) ! i = (if bit t i then CHR ''1'' else CHR ''0'')"
proof (induction t arbitrary: i rule: bin_digits.induct)
  case (1 t)
  show ?case
  proof (cases "t < 2")
    case True
    then have "t = 0 \<or> t = 1" by auto
    with True 1(2) show ?thesis by (auto simp: bin_digits_small bit_char_def bit_0)
  next
    case False
    have c: "bit_char (t mod 2) = (if odd t then CHR ''1'' else CHR ''0'')"
      by (cases "odd t") (simp_all add: bit_char_def odd_iff_mod_2_eq_one)
    show ?thesis
    proof (cases i)
      case 0
      with False c show ?thesis by (simp add: bin_digits_big bit_0)
    next
      case (Suc j)
      with 1(2) False have "j < length (bin_digits (t div 2))" by (simp add: bin_digits_big)
      from 1(1) [OF False this] Suc False show ?thesis
        by (simp add: bin_digits_big bit_Suc)
    qed
  qed
qed

lemma format_0nb_length: "t < 2 ^ n \<Longrightarrow> 1 \<le> n \<Longrightarrow> length (format_0nb t n) = n"
  using bin_digits_length_le [of t n] by (simp add: format_0nb_def)

lemma rev_format_0nb_nth:
  assumes "t < 2 ^ n" and "1 \<le> n" and "i < n"
  shows "rev (format_0nb t n) ! i = (if bit t i then CHR ''1'' else CHR ''0'')"
proof (cases "i < length (bin_digits t)")
  case True
  then show ?thesis by (simp add: format_0nb_def nth_append rev_bin_digits_nth)
next
  case False
  have "t < 2 ^ length (bin_digits t)" by (rule bin_digits_bound)
  also have "\<dots> \<le> 2 ^ i" using False by (intro power_increasing) simp_all
  finally have "\<not> bit t i" by (simp add: bit_iff_odd)
  moreover have "rev (format_0nb t n) ! i = CHR ''0''"
    using False assms(3) bin_digits_length_le [OF assms(1,2)]
    by (simp add: format_0nb_def nth_append)
  ultimately show ?thesis by simp
qed

lemma x_where_zero_enumerate:
  "x_where_zero (enumerate k s) =
     map (\<lambda>i. X (int i)) (filter (\<lambda>i. s ! (i - k) = CHR ''0'') [k..<k + length s])"
proof (induction s arbitrary: k)
  case Nil
  then show ?case by simp
next
  case (Cons c s)
  define tl_idx where "tl_idx = [Suc k..<Suc k + length s]"
  have f: "filter (\<lambda>i. (c # s) ! (i - k) = CHR ''0'') tl_idx
          = filter (\<lambda>i. s ! (i - Suc k) = CHR ''0'') tl_idx"
  proof (intro filter_cong refl)
    fix i assume "i \<in> set tl_idx"
    then have "i - k = Suc (i - Suc k)" by (auto simp: tl_idx_def)
    then show "((c # s) ! (i - k) = CHR ''0'') = (s ! (i - Suc k) = CHR ''0'')" by simp
  qed
  have u: "[k..<k + length (c # s)] = k # tl_idx"
    unfolding tl_idx_def by (subst upt_rec) simp
  have "x_where_zero (enumerate k (c # s))
          = (if c = CHR ''0'' then [X (int k)] else []) @ x_where_zero (enumerate (Suc k) s)"
    by simp
  also have "\<dots> = (if c = CHR ''0'' then [X (int k)] else []) @
      map (\<lambda>i. X (int i)) (filter (\<lambda>i. s ! (i - Suc k) = CHR ''0'') tl_idx)"
    unfolding tl_idx_def by (simp only: Cons.IH [of "Suc k"])
  also have "\<dots> = map (\<lambda>i. X (int i)) (filter (\<lambda>i. (c # s) ! (i - k) = CHR ''0'') (k # tl_idx))"
    using f by auto
  finally show ?case unfolding u .
qed

lemma x_where_zero_format:
  assumes "t < 2 ^ n" and "1 \<le> n"
  shows "x_where_zero (enumerate 0 (rev (format_0nb t n)))
           = map (\<lambda>i. X (int i)) (filter (\<lambda>i. \<not> bit t i) [0..<n])"
proof -
  have "filter (\<lambda>i. rev (format_0nb t n) ! (i - 0) = CHR ''0'') [0..<0 + length (rev (format_0nb t n))]
          = filter (\<lambda>i. \<not> bit t i) [0..<n]"
    using assms by (auto simp: format_0nb_length rev_format_0nb_nth intro!: filter_cong)
  then show ?thesis by (simp only: x_where_zero_enumerate)
qed

section \<open>Bounds on \<open>\<pi>\<close> from the cosine series\<close>

lemma cos_poly8:
  fixes x :: real
  assumes "0 < x"
  shows "\<bar>cos x - (1 - x\<^sup>2 / 2 + x ^ 4 / 24 - x ^ 6 / 720)\<bar> \<le> x ^ 8 / 40320"
proof -
  from Maclaurin_cos_expansion2 [of x 8] assms
  obtain t where t: "cos x = (\<Sum>m<8. cos_coeff m * x ^ m) + (cos (t + 1 / 2 * real 8 * pi) / fact 8) * x ^ 8"
    by auto
  have s: "(\<Sum>m<8. cos_coeff m * x ^ m) = 1 - x\<^sup>2 / 2 + x ^ 4 / 24 - x ^ 6 / 720"
  proof -
    have c: "cos_coeff 1 = 0" "cos_coeff 2 = - 1 / 2" "cos_coeff 3 = 0"
      "cos_coeff 4 = 1 / 24" "cos_coeff 5 = 0" "cos_coeff 6 = - 1 / 720" "cos_coeff 7 = 0"
      by (simp_all add: cos_coeff_def fact_numeral)
    have c1: "cos_coeff (Suc 0) = 0" by (simp add: cos_coeff_def)
    have "{..<8::nat} = {0, 1, 2, 3, 4, 5, 6, 7}" by auto
    then have "(\<Sum>m<8. cos_coeff m * x ^ m) = (\<Sum>m\<in>{0, 1, 2, 3, 4, 5, 6, 7}. cos_coeff m * x ^ m)"
      by simp
    also have "\<dots> = 1 - x\<^sup>2 / 2 + x ^ 4 / 24 - x ^ 6 / 720"
      by (simp add: c c1)
    finally show ?thesis .
  qed
  have f: "fact 8 = (40320 :: real)" by (simp add: eval_nat_numeral)
  have "\<bar>cos (t + 1 / 2 * real 8 * pi) * x ^ 8\<bar> \<le> 1 * x ^ 8"
    unfolding abs_mult using assms by (intro mult_mono) simp_all
  then have "\<bar>(cos (t + 1 / 2 * real 8 * pi) / fact 8) * x ^ 8\<bar> \<le> x ^ 8 / 40320"
    unfolding f by (simp add: abs_mult field_simps)
  with t s show ?thesis by simp
qed

lemma cos_155_pos: "0 < cos (155 / 100 :: real)"
proof -
  have "\<bar>cos (155 / 100 :: real) - (1 - (155 / 100)\<^sup>2 / 2 + (155 / 100) ^ 4 / 24 - (155 / 100) ^ 6 / 720)\<bar>
          \<le> (155 / 100) ^ 8 / 40320"
    by (rule cos_poly8) simp
  then have "(1 - (155 / 100)\<^sup>2 / 2 + (155 / 100) ^ 4 / 24 - (155 / 100) ^ 6 / 720) - (155 / 100) ^ 8 / 40320
          \<le> cos (155 / 100 :: real)"
    by linarith
  moreover have "(0::real) < (1 - (155 / 100)\<^sup>2 / 2 + (155 / 100) ^ 4 / 24 - (155 / 100) ^ 6 / 720) - (155 / 100) ^ 8 / 40320"
    by (simp add: power_divide)
  ultimately show ?thesis by linarith
qed

lemma cos_159_neg: "cos (159 / 100 :: real) < 0"
proof -
  have "\<bar>cos (159 / 100 :: real) - (1 - (159 / 100)\<^sup>2 / 2 + (159 / 100) ^ 4 / 24 - (159 / 100) ^ 6 / 720)\<bar>
          \<le> (159 / 100) ^ 8 / 40320"
    by (rule cos_poly8) simp
  then have "cos (159 / 100 :: real)
          \<le> (1 - (159 / 100)\<^sup>2 / 2 + (159 / 100) ^ 4 / 24 - (159 / 100) ^ 6 / 720) + (159 / 100) ^ 8 / 40320"
    by linarith
  moreover have "(1 - (159 / 100)\<^sup>2 / 2 + (159 / 100) ^ 4 / 24 - (159 / 100) ^ 6 / 720) + (159 / 100) ^ 8 / 40320 < (0::real)"
    by (simp add: power_divide)
  ultimately show ?thesis by linarith
qed

lemma pi_gt_31: "31 / 10 < pi"
proof (rule ccontr)
  assume "\<not> 31 / 10 < pi"
  then have "pi / 2 \<le> 155 / 100" by simp
  moreover have "155 / 100 \<le> pi" using pi_ge_two by simp
  ultimately have "cos (155 / 100) \<le> cos (pi / 2)"
    by (intro cos_monotone_0_pi_le) simp_all
  with cos_155_pos show False by simp
qed

lemma pi_lt_318: "pi < 318 / 100"
proof (rule ccontr)
  assume "\<not> pi < 318 / 100"
  then have "159 / 100 \<le> pi / 2" by simp
  then have "cos (pi / 2) \<le> cos (159 / 100)"
    by (intro cos_monotone_0_pi_le) simp_all
  with cos_159_neg show False by simp
qed


section \<open>Properties of the Grover circuit builder\<close>

lemma py_round_of_int: "py_round (real_of_int m) = m"
  by (simp add: py_round_def)

lemma py_round_between:
  assumes "real_of_int k - 1 / 2 < x" and "x < real_of_int k + 1 / 2"
  shows "py_round x = k"
proof -
  have f: "\<lfloor>x + 1 / 2\<rfloor> = k" using assms by (intro floor_unique) simp_all
  have "frac x \<noteq> 1 / 2"
  proof
    assume h: "frac x = 1 / 2"
    then have "x = real_of_int \<lfloor>x\<rfloor> + 1 / 2" by (simp add: frac_def)
    with assms have "real_of_int k - 1 < real_of_int \<lfloor>x\<rfloor>" "real_of_int \<lfloor>x\<rfloor> < real_of_int k"
      by linarith+
    then have "k - 1 < \<lfloor>x\<rfloor>" "\<lfloor>x\<rfloor> < k" by linarith+
    then show False by simp
  qed
  with f show ?thesis by (simp add: py_round_def)
qed

lemma grover_loop_replicate:
  "grover_loop k og dg acc = acc @ concat (replicate k [og, dg])"
proof (induction k arbitrary: acc)
  case 0
  then show ?case by simp
next
  case (Suc k)
  have "concat (replicate k [og, dg]) @ [og, dg] = [og, dg] @ concat (replicate k [og, dg])"
    by (induction k) simp_all
  then show ?case by (simp add: Suc.IH)
qed


lemma qrange_int: "qrange (int n) = map int [0..<n]"
  by (simp add: qrange_def)

lemma qrange_int_pred: "qrange (int n - 1) = map int [0..<n - 1]"
  by (simp add: qrange_def nat_diff_distrib')

lemma grover_circuit_builder_diff:
  "map_sum id built_diff (grover_circuit_builder target_index n)
     = (if 1024 \<le> n then Inl OverflowError else Inr (diffuser n))"
  by (simp add: grover_circuit_builder_def grover_iterations_def Let_def)

lemma build_oracle_instructions:
  assumes "1 \<le> n" and "target_index < 2 ^ n"
  shows "instructions (build_oracle target_index n) =
           map (\<lambda>i. X (int i)) (filter (\<lambda>i. \<not> bit target_index i) [0..<n]) @
           [H (int n - 1), MCX (map int [0..<n - 1]) (int n - 1), H (int n - 1)] @
           map (\<lambda>i. X (int i)) (filter (\<lambda>i. \<not> bit target_index i) [0..<n])"
  by (simp add: build_oracle_def Let_def x_where_zero_format [OF assms(2,1)] qrange_int_pred)

text \<open>
  Claim C4. For \<open>n \<ge> 1\<close> and a target index below \<open>2 ^ n\<close>, the oracle circuit is: an X
  gate on each qubit position \<open>i < n\<close> where bit \<open>i\<close> of the target index (least
  significant bit first) is \<open>0\<close>, then H, multi-controlled X and H on the last qubit,
  then the same X gates again; X is applied on those positions and on no other. The
  diffuser is the fixed circuit written out below; the one the builder returns is the same
  for every target index.
\<close>

theorem build_oracle_marks_target:
  assumes "1 \<le> n" and "target_index < 2 ^ n"
  shows "instructions (build_oracle target_index n) =
           map (\<lambda>i. X (int i)) (filter (\<lambda>i. \<not> bit target_index i) [0..<n]) @
           [H (int n - 1), MCX (map int [0..<n - 1]) (int n - 1), H (int n - 1)] @
           map (\<lambda>i. X (int i)) (filter (\<lambda>i. \<not> bit target_index i) [0..<n]) \<and>
         (\<forall>q. X q \<in> set (instructions (build_oracle target_index n)) \<longleftrightarrow>
                (\<exists>i<n. q = int i \<and> \<not> bit target_index i)) \<and>
         instructions (diffuser n) =
           map (\<lambda>i. H (int i)) [0..<n] @ map (\<lambda>i. X (int i)) [0..<n] @
           [H (int n - 1), MCX (map int [0..<n - 1]) (int n - 1), H (int n - 1)] @
           map (\<lambda>i. X (int i)) [0..<n] @ map (\<lambda>i. H (int i)) [0..<n] \<and>
         map_sum id built_diff (grover_circuit_builder target_index n)
           = map_sum id built_diff (grover_circuit_builder other_index n)"
proof -
  have o: "instructions (build_oracle target_index n) =
           map (\<lambda>i. X (int i)) (filter (\<lambda>i. \<not> bit target_index i) [0..<n]) @
           [H (int n - 1), MCX (map int [0..<n - 1]) (int n - 1), H (int n - 1)] @
           map (\<lambda>i. X (int i)) (filter (\<lambda>i. \<not> bit target_index i) [0..<n])"
    by (rule build_oracle_instructions [OF assms])
  have x: "X q \<in> set (instructions (build_oracle target_index n)) \<longleftrightarrow>
             (\<exists>i<n. q = int i \<and> \<not> bit target_index i)" for q
    unfolding o by auto
  have d: "instructions (diffuser n) =
           map (\<lambda>i. H (int i)) [0..<n] @ map (\<lambda>i. X (int i)) [0..<n] @
           [H (int n - 1), MCX (map int [0..<n - 1]) (int n - 1), H (int n - 1)] @
           map (\<lambda>i. X (int i)) [0..<n] @ map (\<lambda>i. H (int i)) [0..<n]"
    by (simp add: diffuser_def qrange_int qrange_int_pred comp_def)
  have g: "map_sum id built_diff (grover_circuit_builder target_index n)
           = map_sum id built_diff (grover_circuit_builder other_index n)"
    by (simp only: grover_circuit_builder_diff)
  from o x d g show ?thesis by blast
qed

theorem build_oracle_marks_target_witness:
  "(1::nat) \<le> 3 \<and> (5::nat) < 2 ^ 3 \<and>
   instructions (build_oracle 5 3) = [X 1, H 2, MCX [0, 1] 2, H 2, X 1]"
proof -
  have a: "(1::nat) \<le> 3" and b: "(5::nat) < 2 ^ 3" by simp_all
  have u: "[0..<3] = [0, 1, 2]" "[0..<3 - 1] = [0, 1]" by (simp_all add: upt_conv_Cons)
  have f: "filter (\<lambda>i. \<not> bit (5::nat) i) [0, 1, 2] = [1]"
    by (simp add: bit_iff_odd)
  from build_oracle_marks_target [OF a b]
  have "instructions (build_oracle 5 3) =
           map (\<lambda>i. X (int i)) (filter (\<lambda>i. \<not> bit (5::nat) i) [0..<3]) @
           [H (int 3 - 1), MCX (map int [0..<3 - 1]) (int 3 - 1), H (int 3 - 1)] @
           map (\<lambda>i. X (int i)) (filter (\<lambda>i. \<not> bit (5::nat) i) [0..<3])"
    by blast
  then have "instructions (build_oracle 5 3) = [X 1, H 2, MCX [0, 1] 2, H 2, X 1]"
    unfolding u f by simp
  with a b show ?thesis by blast
qed


subsection \<open>The iteration count in double precision\<close>

lemma fl_in_binade:
  assumes "0 < x" and "2 powr real_of_int e \<le> x" and "x < 2 powr (real_of_int e + 1)"
  shows "fl x = real_of_int (py_round (x / 2 powr (real_of_int e - 52))) * 2 powr (real_of_int e - 52)"
proof -
  have "\<lfloor>log 2 x\<rfloor> = e"
    using assms by (simp add: floor_log_eq_powr_iff)
  then show ?thesis using assms(1) by (simp add: fl_def Let_def)
qed

lemma binade_scaled:
  assumes "2 ^ 52 \<le> y" and "y < 2 ^ 53"
  shows "2 powr real_of_int (k + 52) \<le> y * 2 powr real_of_int k"
    and "y * 2 powr real_of_int k < 2 powr (real_of_int (k + 52) + 1)"
proof -
  have pk: "0 < (2::real) powr real_of_int k" by simp
  have "2 powr real_of_int (k + 52) = 2 ^ 52 * 2 powr real_of_int k"
    by (simp add: powr_add)
  also have "\<dots> \<le> y * 2 powr real_of_int k"
    using assms(1) pk by (intro mult_right_mono) simp_all
  finally show "2 powr real_of_int (k + 52) \<le> y * 2 powr real_of_int k" .
  have "y * 2 powr real_of_int k < 2 ^ 53 * 2 powr real_of_int k"
    using assms(2) pk by (intro mult_strict_right_mono) simp_all
  also have "\<dots> = 2 powr (real_of_int (k + 52) + 1)"
    by (simp add: powr_add)
  finally show "y * 2 powr real_of_int k < 2 powr (real_of_int (k + 52) + 1)" .
qed

lemma fl_representable:
  assumes "2 ^ 52 \<le> m" and "m < 2 ^ 53"
  shows "fl (real_of_int m * 2 powr real_of_int k) = real_of_int m * 2 powr real_of_int k"
proof -
  define x where "x = real_of_int m * 2 powr real_of_int k"
  have mpos: "0 < real_of_int m" using assms(1) by (simp add: order.strict_trans2 [of 0 "2 ^ 52"])
  have xpos: "0 < x" using mpos by (simp add: x_def)
  have m1: "(2::real) ^ 52 \<le> real_of_int m" using assms(1) by (metis of_int_le_iff of_int_numeral of_int_power)
  have m2: "real_of_int m < 2 ^ 53" using assms(2) by (metis of_int_less_iff of_int_numeral of_int_power)
  have lo: "2 powr real_of_int (k + 52) \<le> x"
    unfolding x_def using m1 m2 by (rule binade_scaled(1))
  have hi: "x < 2 powr (real_of_int (k + 52) + 1)"
    unfolding x_def using m1 m2 by (rule binade_scaled(2))
  have "fl x = real_of_int (py_round (x / 2 powr (real_of_int (k + 52) - 52))) * 2 powr (real_of_int (k + 52) - 52)"
    using xpos lo hi by (rule fl_in_binade)
  also have "x / 2 powr (real_of_int (k + 52) - 52) = real_of_int m"
    by (simp add: x_def)
  finally show ?thesis by (simp add: py_round_of_int x_def)
qed

lemma fl_nearest:
  assumes "2 ^ 52 \<le> m" and "m < 2 ^ 53"
    and "real_of_int m - 1 / 2 < y" and "y < real_of_int m + 1 / 2"
    and "2 ^ 52 \<le> y" and "y < 2 ^ 53"
  shows "fl (y * 2 powr real_of_int k) = real_of_int m * 2 powr real_of_int k"
proof -
  define x where "x = y * 2 powr real_of_int k"
  have ypos: "0 < y" using assms(5) by (simp add: order.strict_trans2 [of 0 "2 ^ 52"])
  have xpos: "0 < x" using ypos by (simp add: x_def)
  have lo: "2 powr real_of_int (k + 52) \<le> x"
    unfolding x_def using assms(5,6) by (rule binade_scaled(1))
  have hi: "x < 2 powr (real_of_int (k + 52) + 1)"
    unfolding x_def using assms(5,6) by (rule binade_scaled(2))
  have "fl x = real_of_int (py_round (x / 2 powr (real_of_int (k + 52) - 52))) * 2 powr (real_of_int (k + 52) - 52)"
    using xpos lo hi by (rule fl_in_binade)
  also have "x / 2 powr (real_of_int (k + 52) - 52) = y"
    by (simp add: x_def)
  also have "py_round y = m" using assms(3,4) by (rule py_round_between)
  finally show ?thesis by (simp add: x_def)
qed


lemma two_powr_diff: "2 powr real_of_int (int j - int i) = 2 ^ j / 2 ^ i"
  by (simp add: powr_diff powr_realpow)

lemma fl_scaled_int:
  assumes "2 ^ 52 \<le> m" and "m < 2 ^ 53"
  shows "fl (real_of_int m * 2 ^ j / 2 ^ i) = real_of_int m * 2 ^ j / 2 ^ i"
  using fl_representable [OF assms, of "int j - int i"]
  by (simp only: two_powr_diff times_divide_eq_right)

lemma fl_two_power: "fl (2 ^ j) = 2 ^ j"
  using fl_scaled_int [of "2 ^ 52" j 52] by simp

lemma fl_math_pi_quarter: "fl (math_pi / 4 * 2 ^ j) = math_pi / 4 * 2 ^ j"
proof -
  have e: "math_pi / 4 * 2 ^ j = real_of_int 7074237752028440 * 2 ^ j / 2 ^ 53"
    by (simp add: math_pi_def)
  show ?thesis unfolding e by (rule fl_scaled_int) simp_all
qed

lemma sqrt_two_power_even: "sqrt (2 ^ (2 * k)) = 2 ^ k"
  by (simp add: power_mult real_sqrt_power power2_eq_square [symmetric] real_sqrt_mult)

lemma sqrt_two_power_odd: "sqrt (2 ^ (2 * k + 1)) = sqrt 2 * 2 ^ k"
proof -
  have "sqrt (2 ^ (2 * k + 1)) = sqrt (2 * 2 ^ (2 * k))" by simp
  also have "\<dots> = sqrt 2 * sqrt (2 ^ (2 * k))" by (rule real_sqrt_mult)
  finally show ?thesis by (simp only: sqrt_two_power_even)
qed

lemma fl_nearest_scaled:
  assumes "2 ^ 52 \<le> m" and "m < 2 ^ 53"
    and "real_of_int m - 1 / 2 < y" and "y < real_of_int m + 1 / 2"
    and "2 ^ 52 \<le> y" and "y < 2 ^ 53"
  shows "fl (y * 2 ^ j / 2 ^ i) = real_of_int m * 2 ^ j / 2 ^ i"
  using fl_nearest [OF assms, of "int j - int i"]
  by (simp only: two_powr_diff times_divide_eq_right)

lemma sqrt2_mantissa:
  "real_of_int 6369051672525773 - 1 / 2 < sqrt 2 * 2 ^ 52"
  "sqrt 2 * 2 ^ 52 < real_of_int 6369051672525773 + 1 / 2"
proof -
  define c :: real where "c = 2 ^ 52"
  have cpos: "0 \<le> c" by (simp add: c_def)
  have s: "sqrt 2 * c = sqrt (2 * c\<^sup>2)"
    using cpos by (simp add: real_sqrt_mult)
  have "real_of_int 6369051672525773 - 1 / 2 < sqrt 2 * c"
    unfolding s by (rule real_less_rsqrt) (simp add: c_def power2_eq_square)
  then show "real_of_int 6369051672525773 - 1 / 2 < sqrt 2 * 2 ^ 52"
    unfolding c_def .
  have "sqrt 2 * c < real_of_int 6369051672525773 + 1 / 2"
    unfolding s by (rule real_less_lsqrt) (simp_all add: c_def power2_eq_square)
  then show "sqrt 2 * 2 ^ 52 < real_of_int 6369051672525773 + 1 / 2"
    unfolding c_def .
qed

lemma fl_sqrt_two_scaled: "fl (sqrt 2 * 2 ^ k) = 6369051672525773 * 2 ^ k / 2 ^ 52"
proof -
  have lo: "(2::real) ^ 52 \<le> sqrt 2 * 2 ^ 52" using sqrt2_mantissa(1) by simp
  have hi: "sqrt 2 * 2 ^ 52 < (2::real) ^ 53" using sqrt2_mantissa(2) by simp
  have e: "sqrt 2 * 2 ^ k = sqrt 2 * 2 ^ 52 * 2 ^ k / 2 ^ 52" by simp
  have "fl (sqrt 2 * 2 ^ 52 * 2 ^ k / 2 ^ 52) = real_of_int 6369051672525773 * 2 ^ k / 2 ^ 52"
    using _ _ sqrt2_mantissa lo hi by (rule fl_nearest_scaled) simp_all
  then show ?thesis by (simp only: e [symmetric] of_int_numeral)
qed

lemma fl_product_odd:
  "fl (math_pi / 4 * (6369051672525773 * 2 ^ k / 2 ^ 52)) = 5002241486185188 * 2 ^ k / 2 ^ 52"
proof -
  define y :: real where "y = 7074237752028440 * 6369051672525773 / 2 ^ 53"
  have e: "math_pi / 4 * (6369051672525773 * 2 ^ k / 2 ^ 52) = y * 2 ^ k / 2 ^ 52"
    by (simp add: math_pi_def y_def)
  have "fl (y * 2 ^ k / 2 ^ 52) = real_of_int 5002241486185188 * 2 ^ k / 2 ^ 52"
    by (rule fl_nearest_scaled) (simp_all add: y_def)
  then show ?thesis by (simp only: e of_int_numeral)
qed

lemma fl_math_pi_quarter_0: "fl (math_pi / 4) = math_pi / 4"
  using fl_math_pi_quarter [of 0] by simp

lemma grover_iterations_even:
  assumes "2 * k < 1024"
  shows "grover_iterations (2 * k) = Inr (py_round (math_pi / 4 * 2 ^ k))"
proof -
  have h: "fl (fl (math_pi / 4) * fl (sqrt (fl (2 ^ (2 * k))))) = math_pi / 4 * 2 ^ k"
    by (simp only: fl_math_pi_quarter_0 fl_two_power sqrt_two_power_even fl_math_pi_quarter)
  have c: "\<not> 1024 \<le> 2 * k" using assms by simp
  show ?thesis unfolding grover_iterations_def by (simp only: c if_False h)
qed

lemma grover_iterations_odd:
  assumes "2 * k + 1 < 1024"
  shows "grover_iterations (2 * k + 1) = Inr (py_round (5002241486185188 * 2 ^ k / 2 ^ 52))"
proof -
  have h: "fl (fl (math_pi / 4) * fl (sqrt (fl (2 ^ (2 * k + 1))))) = 5002241486185188 * 2 ^ k / 2 ^ 52"
    by (simp only: fl_math_pi_quarter_0 fl_two_power sqrt_two_power_odd fl_sqrt_two_scaled fl_product_odd)
  have c: "\<not> 1024 \<le> 2 * k + 1" using assms by simp
  show ?thesis unfolding grover_iterations_def by (simp only: c if_False h)
qed

lemma grover_iterations_values:
  "grover_iterations 2 = Inr 2" "grover_iterations 3 = Inr 2"
  "grover_iterations 4 = Inr 3" "grover_iterations 5 = Inr 4"
proof -
  have "py_round (math_pi / 4 * 2 ^ 1) = 2"
    by (rule py_round_between) (simp_all add: math_pi_def)
  with grover_iterations_even [of 1] show "grover_iterations 2 = Inr 2" by simp
  have "py_round (5002241486185188 * 2 ^ 1 / 2 ^ 52) = 2"
    by (rule py_round_between) simp_all
  with grover_iterations_odd [of 1] show "grover_iterations 3 = Inr 2" by simp
  have "py_round (math_pi / 4 * 2 ^ 2) = 3"
    by (rule py_round_between) (simp_all add: math_pi_def)
  with grover_iterations_even [of 2] show "grover_iterations 4 = Inr 3" by simp
  have "py_round (5002241486185188 * 2 ^ 2 / 2 ^ 52) = 4"
    by (rule py_round_between) simp_all
  with grover_iterations_odd [of 2] show "grover_iterations 5 = Inr 4" by simp
qed

lemma grover_iterations_large:
  "grover_iterations 99 = Inr 625280185773148"
  "grover_iterations 112 = Inr 56593902016227520"
proof -
  have h: "(5002241486185188 * 2 ^ 49 / 2 ^ 52 :: real) = real_of_int 625280185773148 + 1 / 2"
    by simp
  have f: "\<lfloor>real_of_int 625280185773148 + 1 / 2\<rfloor> = 625280185773148"
    by (intro floor_unique) simp_all
  have "py_round (5002241486185188 * 2 ^ 49 / 2 ^ 52) = 625280185773148"
    unfolding h by (simp add: py_round_def frac_def f)
  with grover_iterations_odd [of 49] show "grover_iterations 99 = Inr 625280185773148" by simp
  have "(math_pi / 4 * 2 ^ 56 :: real) = real_of_int 56593902016227520"
    by (simp add: math_pi_def)
  then have "py_round (math_pi / 4 * 2 ^ 56) = 56593902016227520"
    by (simp only: py_round_of_int)
  with grover_iterations_even [of 56] show "grover_iterations 112 = Inr 56593902016227520" by simp
qed

subsection \<open>The exact value of \<open>\<pi>/4 \<cdot> \<surd>N\<close> and its floor\<close>

lemma sqrt2_bounds: "1414 / 1000 < sqrt 2" "sqrt 2 < 141422 / 100000"
proof -
  show "1414 / 1000 < sqrt 2" by (intro real_less_rsqrt) (simp add: power2_eq_square)
  show "sqrt 2 < 141422 / 100000" by (intro real_less_lsqrt) (simp_all add: power2_eq_square)
qed

lemma pi_sqrt2_bounds: "4383 / 1000 < pi * sqrt 2" "pi * sqrt 2 < 4498 / 1000"
proof -
  have "(31 / 10) * (1414 / 1000) < pi * sqrt 2"
    using pi_gt_31 sqrt2_bounds(1) by (intro mult_strict_mono) simp_all
  then show "4383 / 1000 < pi * sqrt 2" by simp
  have "pi * sqrt 2 < (318 / 100) * (141422 / 100000)"
    using pi_lt_318 sqrt2_bounds(2) by (intro mult_strict_mono) simp_all
  then show "pi * sqrt 2 < 4498 / 1000" by simp
qed

lemma sqrt_powers_of_two:
  "sqrt 4 = 2" "sqrt 8 = 2 * sqrt 2" "sqrt 16 = 4" "sqrt 32 = 4 * sqrt 2"
proof -
  have "sqrt ((2::real)\<^sup>2) = \<bar>2\<bar>" by (rule real_sqrt_abs)
  then show "sqrt 4 = 2" by simp
  have "sqrt ((4::real)\<^sup>2) = \<bar>4\<bar>" by (rule real_sqrt_abs)
  then show b: "sqrt 16 = 4" by simp
  have "sqrt (4 * 2) = sqrt 4 * sqrt 2" by (rule real_sqrt_mult)
  then show "sqrt 8 = 2 * sqrt 2" by simp
  have "sqrt (16 * 2) = sqrt 16 * sqrt 2" by (rule real_sqrt_mult)
  then show "sqrt 32 = 4 * sqrt 2" by (simp add: b)
qed

lemma grover_angle_values:
  "(pi / 4) * sqrt (2 ^ 2) = pi / 2"
  "(pi / 4) * sqrt (2 ^ 3) = pi * sqrt 2 / 2"
  "(pi / 4) * sqrt (2 ^ 4) = pi"
  "(pi / 4) * sqrt (2 ^ 5) = pi * sqrt 2"
  by (simp_all add: sqrt_powers_of_two(2,3,4))

lemma grover_angle_bounds:
  "15 / 10 + 1 / 1000 < (pi / 4) * sqrt (2 ^ 2)" "(pi / 4) * sqrt (2 ^ 2) < 2 - 1 / 1000"
  "2 + 1 / 1000 < (pi / 4) * sqrt (2 ^ 3)" "(pi / 4) * sqrt (2 ^ 3) < 25 / 10 - 1 / 1000"
  "3 + 1 / 1000 < (pi / 4) * sqrt (2 ^ 4)" "(pi / 4) * sqrt (2 ^ 4) < 35 / 10 - 1 / 1000"
  "4 + 1 / 1000 < (pi / 4) * sqrt (2 ^ 5)" "(pi / 4) * sqrt (2 ^ 5) < 45 / 10 - 1 / 1000"
  unfolding grover_angle_values
  using pi_gt_31 pi_lt_318 pi_sqrt2_bounds by simp_all

lemma grover_angle_floors:
  "\<lfloor>(pi / 4) * sqrt (2 ^ 2)\<rfloor> = 1" "\<lfloor>(pi / 4) * sqrt (2 ^ 3)\<rfloor> = 2"
  "\<lfloor>(pi / 4) * sqrt (2 ^ 4)\<rfloor> = 3" "\<lfloor>(pi / 4) * sqrt (2 ^ 5)\<rfloor> = 4"
proof -
  show "\<lfloor>(pi / 4) * sqrt (2 ^ 2)\<rfloor> = 1"
    using grover_angle_bounds(1,2) by (intro floor_unique) simp_all
  show "\<lfloor>(pi / 4) * sqrt (2 ^ 3)\<rfloor> = 2"
    using grover_angle_bounds(3,4) by (intro floor_unique) simp_all
  show "\<lfloor>(pi / 4) * sqrt (2 ^ 4)\<rfloor> = 3"
    using grover_angle_bounds(5,6) by (intro floor_unique) simp_all
  show "\<lfloor>(pi / 4) * sqrt (2 ^ 5)\<rfloor> = 4"
    using grover_angle_bounds(7,8) by (intro floor_unique) simp_all
qed

subsection \<open>The circuit and the count the builder returns\<close>

lemma grover_circuit_builder_composes:
  assumes "grover_iterations n = Inr iterations"
  shows "grover_circuit_builder target_index n =
           Inr \<lparr>built_qc =
                  \<lparr>num_qubits = n, num_clbits = n, name = None,
                   instructions =
                     map H (qrange (int n)) @
                     concat (replicate (nat iterations)
                       [to_gate (build_oracle target_index n) (qrange (int n)),
                        to_gate (diffuser n) (qrange (int n))]) @
                     map (\<lambda>i. Measure i i) (qrange (int n))\<rparr>,
                built_iterations = iterations,
                built_oracle = build_oracle target_index n,
                built_diff = diffuser n\<rparr>"
  by (simp add: grover_circuit_builder_def Let_def assms grover_loop_replicate)

text \<open>
  Claim C2 says that the oracle and the diffuser are composed \<open>\<lfloor>\<pi>/4 \<cdot> \<surd>N\<rfloor>\<close> times. The
  code rounds to the nearest integer instead. For two qubits, \<open>N = 4\<close>, which the page
  offers, the builder returns \<open>2\<close> iterations, and the floor is \<open>1\<close>.
\<close>

theorem grover_iterations_not_floor:
  "map_sum id built_iterations (grover_circuit_builder 0 2) = Inr 2 \<and>
   \<lfloor>(pi / 4) * sqrt (2 ^ 2)\<rfloor> = 1"
  using grover_circuit_builder_composes [OF grover_iterations_values(1), of 0] grover_angle_floors(1)
  by simp

text \<open>
  For the other sizes the page offers the count the builder returns is the floor.
\<close>

lemma grover_iterations_floor_3_4_5:
  "grover_iterations 3 = Inr \<lfloor>(pi / 4) * sqrt (2 ^ 3)\<rfloor>"
  "grover_iterations 4 = Inr \<lfloor>(pi / 4) * sqrt (2 ^ 4)\<rfloor>"
  "grover_iterations 5 = Inr \<lfloor>(pi / 4) * sqrt (2 ^ 5)\<rfloor>"
  by (simp_all only: grover_iterations_values grover_angle_floors)


section \<open>Outcomes of the entangling circuit\<close>

lemma all_basis_2: "all_basis 2 = [[False, False], [False, True], [True, False], [True, True]]"
  by (simp add: numeral_2_eq_2)

lemma entangle_run:
  "\<exists>psi. run_gates 2 [H 0, CX 0 1, Measure 0 0, Measure 1 1]
             (\<lambda>b. if b = replicate 2 False then 1 else 0) = Some (psi, [(0, 0), (1, 1)]) \<and>
         psi [False, False] = 1 / complex_of_real (sqrt 2) \<and>
         psi [True, True] = 1 / complex_of_real (sqrt 2) \<and>
         psi [True, False] = 0 \<and> psi [False, True] = 0"
proof -
  define psi0 :: statevector where "psi0 = (\<lambda>b. if b = replicate 2 False then 1 else 0)"
  define psi1 :: statevector where
    "psi1 = (\<lambda>b. (psi0 (b[0 := False]) + (if b ! 0 then - 1 else 1) * psi0 (b[0 := True]))
                  / complex_of_real (sqrt 2))"
  define psi2 :: statevector where
    "psi2 = (\<lambda>b. if b ! 0 then psi1 (flip 1 b) else psi1 b)"
  have r: "replicate 2 False = [False, False]" by (simp add: numeral_2_eq_2)
  have q: "qubit_at 2 0 = 0" "qubit_at 2 1 = 1" by (simp_all add: qubit_at_def)
  have h: "apply_gate 2 (H 0) psi0 = Some psi1"
    by (simp add: psi1_def q cong: if_cong)
  have c: "apply_gate 2 (CX 0 1) psi1 = Some psi2"
    by (simp add: psi2_def q cong: if_cong)
  have run: "run_gates 2 [H 0, CX 0 1, Measure 0 0, Measure 1 1] psi0 = Some (psi2, [(0, 0), (1, 1)])"
    by (simp add: h c del: apply_gate.simps)
  have v00: "psi2 [False, False] = 1 / complex_of_real (sqrt 2)"
    by (simp add: psi2_def psi1_def psi0_def r)
  have v11: "psi2 [True, True] = 1 / complex_of_real (sqrt 2)"
    by (simp add: psi2_def psi1_def psi0_def r flip_def)
  have v10: "psi2 [True, False] = 0"
    by (simp add: psi2_def psi1_def psi0_def r flip_def)
  have v01: "psi2 [False, True] = 0"
    by (simp add: psi2_def psi1_def psi0_def r flip_def)
  from run v00 v11 v10 v01 show ?thesis unfolding psi0_def by blast
qed


lemma entangle_keys:
  "counts_key (measure_all 2 [(0, 0), (1, 1)] [x, y] (replicate 2 False))
     = [if y then CHR ''1'' else CHR ''0'', if x then CHR ''1'' else CHR ''0'']"
  by (simp add: counts_key_def qubit_at_def numeral_2_eq_2)

lemma amplitude_half: "(cmod (1 / complex_of_real (sqrt 2)))\<^sup>2 = 1 / 2"
  by (simp add: norm_divide power_divide)

text \<open>
  Claim C7. Under the ideal state-vector meaning of H, CNOT and measurement, the circuit
  H on qubit 0, CNOT from qubit 0 to qubit 1, measurement of both qubits, has its outcome
  distribution on the two correlated bit strings: \<open>00\<close> and \<open>11\<close> have probability
  \<open>1/2\<close> each, and \<open>01\<close> and \<open>10\<close> have probability zero.
\<close>

theorem entangle_outcomes:
  "outcome_probability entangle_qc ''00'' = Some (1 / 2) \<and>
   outcome_probability entangle_qc ''11'' = Some (1 / 2) \<and>
   outcome_probability entangle_qc ''01'' = Some 0 \<and>
   outcome_probability entangle_qc ''10'' = Some 0"
proof -
  from entangle_run obtain psi where
    run: "run_gates 2 [H 0, CX 0 1, Measure 0 0, Measure 1 1]
            (\<lambda>b. if b = replicate 2 False then 1 else 0) = Some (psi, [(0, 0), (1, 1)])"
    and v: "psi [False, False] = 1 / complex_of_real (sqrt 2)"
      "psi [True, True] = 1 / complex_of_real (sqrt 2)"
      "psi [True, False] = 0" "psi [False, True] = 0"
    by blast
  have p: "outcome_probability entangle_qc key =
      Some (sum_list (map (\<lambda>b. if counts_key (measure_all 2 [(0, 0), (1, 1)] b (replicate 2 False)) = key
                                 then (cmod (psi b))\<^sup>2 else 0)
                          [[False, False], [False, True], [True, False], [True, True]]))" for key
    by (simp add: outcome_probability_def entangle_qc_def run all_basis_2 del: run_gates.simps)
  have "outcome_probability entangle_qc ''00'' = Some (1 / 2)"
    unfolding p by (simp add: entangle_keys v amplitude_half del: measure_all.simps)
  moreover have "outcome_probability entangle_qc ''11'' = Some (1 / 2)"
    unfolding p by (simp add: entangle_keys v amplitude_half del: measure_all.simps)
  moreover have "outcome_probability entangle_qc ''01'' = Some 0"
    unfolding p by (simp add: entangle_keys v amplitude_half del: measure_all.simps)
  moreover have "outcome_probability entangle_qc ''10'' = Some 0"
    unfolding p by (simp add: entangle_keys v amplitude_half del: measure_all.simps)
  ultimately show ?thesis by blast
qed

section \<open>The oracle changes the sign of the target's amplitude only\<close>

text \<open>
  Under the state-vector meaning of the gates, the oracle circuit is the marking circuit
  for the target index: on the basis states of \<open>n\<close> qubits it negates the amplitude of the
  one whose qubit \<open>i\<close> holds bit \<open>i\<close> of the target index, and leaves every other
  amplitude as it is.
\<close>

lemma qubit_at_int: "qubit_at n (int i) = i"
  by (simp add: qubit_at_def)

lemma qubit_at_last: "1 \<le> n \<Longrightarrow> qubit_at n (int n - 1) = n - 1"
  by (simp add: qubit_at_def nat_diff_distrib')

lemma run_gates_x_layer:
  "run_gates n (map (\<lambda>i. X (int i)) idxs @ rest) psi
     = run_gates n rest (\<lambda>b. psi (foldr flip idxs b))"
proof (induction idxs arbitrary: psi)
  case Nil
  then show ?case by simp
next
  case (Cons i idxs)
  show ?case by (simp add: Cons.IH qubit_at_int)
qed

lemma length_flip: "length (flip i b) = length b"
  by (simp add: flip_def)

lemma length_foldr_flip: "length (foldr flip idxs b) = length b"
  by (induction idxs) (simp_all add: length_flip)

lemma nth_flip: "j < length b \<Longrightarrow> flip i b ! j = (if j = i then \<not> b ! j else b ! j)"
  by (simp add: flip_def nth_list_update)

lemma nth_foldr_flip:
  "distinct idxs \<Longrightarrow> j < length b \<Longrightarrow>
     foldr flip idxs b ! j = (if j \<in> set idxs then \<not> b ! j else b ! j)"
  by (induction idxs) (auto simp: nth_flip length_foldr_flip)

lemma sqrt2_complex: "complex_of_real (sqrt 2) * complex_of_real (sqrt 2) = 2"
proof -
  have "complex_of_real (sqrt 2) * complex_of_real (sqrt 2) = complex_of_real (sqrt 2 * sqrt 2)"
    by (simp only: of_real_mult)
  then show ?thesis by simp
qed

lemma phase_flip_last:
  assumes "1 \<le> n"
  shows "\<exists>psi'. run_gates n ([H (int n - 1), MCX (map int [0..<n - 1]) (int n - 1), H (int n - 1)] @ rest) psi
                  = run_gates n rest psi' \<and>
               (\<forall>b. length b = n \<longrightarrow>
                    psi' b = (if list_all (\<lambda>v. v) b then - psi b else psi b))"
proof -
  define q where "q = n - 1"
  define cs where "cs = map int [0..<n - 1]"
  define r2 where "r2 = complex_of_real (sqrt 2)"
  define psi1 :: statevector where
    "psi1 = (\<lambda>b. (psi (b[q := False]) + (if b ! q then - 1 else 1) * psi (b[q := True])) / r2)"
  define psi2 :: statevector where
    "psi2 = (\<lambda>b. if list_all (\<lambda>c. b ! qubit_at n c) cs then psi1 (flip q b) else psi1 b)"
  define psi3 :: statevector where
    "psi3 = (\<lambda>b. (psi2 (b[q := False]) + (if b ! q then - 1 else 1) * psi2 (b[q := True])) / r2)"
  have ql: "qubit_at n (int n - 1) = q" using assms by (simp add: q_def qubit_at_last)
  have h1: "apply_gate n (H (int n - 1)) psi = Some psi1"
    by (simp add: psi1_def ql r2_def)
  have m: "apply_gate n (MCX cs (int n - 1)) psi1 = Some psi2"
    by (simp add: psi2_def ql cong: if_cong)
  have h2: "apply_gate n (H (int n - 1)) psi2 = Some psi3"
    by (simp add: psi3_def ql r2_def)
  have run: "run_gates n ([H (int n - 1), MCX cs (int n - 1), H (int n - 1)] @ rest) psi
      = run_gates n rest psi3"
    by (simp only: append_Cons append_Nil run_gates.simps h1 m h2 option.case)
  have val: "psi3 b = (if list_all (\<lambda>v. v) b then - psi b else psi b)" if len: "length b = n" for b
  proof -
    have qn: "q < length b" using assms len by (simp add: q_def)
    define ctl where "ctl = (\<forall>c<q. b ! c)"
    have ctl_eq: "list_all (\<lambda>c. (b[q := v]) ! qubit_at n c) cs = ctl" for v
      by (auto simp: cs_def list_all_iff qubit_at_int ctl_def q_def)
    have all_eq: "list_all (\<lambda>v. v) b \<longleftrightarrow> ctl \<and> b ! q"
    proof -
      have "list_all (\<lambda>v. v) b \<longleftrightarrow> (\<forall>i<length b. b ! i)"
        by (simp add: list_all_length)
      also have "\<dots> \<longleftrightarrow> (\<forall>i<Suc q. b ! i)" using assms len by (simp add: q_def)
      also have "\<dots> \<longleftrightarrow> ctl \<and> b ! q" by (auto simp: ctl_def less_Suc_eq)
      finally show ?thesis .
    qed
    have fF: "flip q (b[q := False]) = b[q := True]" and fT: "flip q (b[q := True]) = b[q := False]"
      using qn by (simp_all add: flip_def)
    have r2: "r2 * r2 = 2" unfolding r2_def by (rule sqrt2_complex)
    have r2nz: "r2 \<noteq> 0" using r2 by auto
    have F1: "psi1 (b[q := False]) = (psi (b[q := False]) + psi (b[q := True])) / r2"
      using qn by (simp add: psi1_def)
    have T1: "psi1 (b[q := True]) = (psi (b[q := False]) - psi (b[q := True])) / r2"
      using qn by (simp add: psi1_def)
    have F2: "psi2 (b[q := False]) = (if ctl then psi1 (b[q := True]) else psi1 (b[q := False]))"
      by (simp add: psi2_def ctl_eq fF)
    have T2: "psi2 (b[q := True]) = (if ctl then psi1 (b[q := False]) else psi1 (b[q := True]))"
      by (simp add: psi2_def ctl_eq fT)
    have bq: "b[q := b ! q] = b" by simp
    show ?thesis
    proof (cases "b ! q")
      case True
      then have bT: "b[q := True] = b" using bq by simp
      have "psi3 b = (psi2 (b[q := False]) - psi2 (b[q := True])) / r2"
        using True by (simp add: psi3_def)
      also have "\<dots> = (if ctl then - psi (b[q := True]) else psi (b[q := True]))"
        using r2 r2nz by (simp add: F2 T2 F1 T1 field_simps) 
      finally show ?thesis using True by (simp add: all_eq bT)
    next
      case False
      then have bF: "b[q := False] = b" using bq by simp
      have "psi3 b = (psi2 (b[q := False]) + psi2 (b[q := True])) / r2"
        using False by (simp add: psi3_def)
      also have "\<dots> = psi (b[q := False])"
        using r2 r2nz by (simp add: F2 T2 F1 T1 field_simps)
      finally show ?thesis using False by (simp add: all_eq bF)
    qed
  qed
  from run val show ?thesis unfolding cs_def by blast
qed


lemma oracle_flips_target_amplitude_then:
  assumes "1 \<le> n" and "target_index < 2 ^ n"
  shows "\<exists>psi'. run_gates n (instructions (build_oracle target_index n) @ rest) psi = run_gates n rest psi' \<and>
               (\<forall>b. length b = n \<longrightarrow>
                    psi' b = (if b = map (bit target_index) [0..<n] then - psi b else psi b))"
proof -
  define zs where "zs = filter (\<lambda>i. \<not> bit target_index i) [0..<n]"
  define mid where "mid = [H (int n - 1), MCX (map int [0..<n - 1]) (int n - 1), H (int n - 1)]"
  define psi_a :: statevector where "psi_a = (\<lambda>b. psi (foldr flip zs b))"
  have dz: "distinct zs" by (simp add: zs_def)
  have sz: "j \<in> set zs \<longleftrightarrow> j < n \<and> \<not> bit target_index j" for j by (auto simp: zs_def)
  have ins: "instructions (build_oracle target_index n) @ rest
      = map (\<lambda>i. X (int i)) zs @ (mid @ (map (\<lambda>i. X (int i)) zs @ rest))"
    unfolding zs_def mid_def using build_oracle_instructions [OF assms] by simp
  from phase_flip_last [OF assms(1), of "map (\<lambda>i. X (int i)) zs @ rest" psi_a]
  obtain psi_b where b1: "run_gates n (mid @ (map (\<lambda>i. X (int i)) zs @ rest)) psi_a
        = run_gates n (map (\<lambda>i. X (int i)) zs @ rest) psi_b"
    and b2: "\<forall>b. length b = n \<longrightarrow> psi_b b = (if list_all (\<lambda>v. v) b then - psi_a b else psi_a b)"
    unfolding mid_def by blast
  define psi_c :: statevector where "psi_c = (\<lambda>b. psi_b (foldr flip zs b))"
  have run: "run_gates n (instructions (build_oracle target_index n) @ rest) psi = run_gates n rest psi_c"
    unfolding ins by (simp only: run_gates_x_layer b1 psi_a_def [symmetric] psi_c_def [symmetric])
  have val: "psi_c b = (if b = map (bit target_index) [0..<n] then - psi b else psi b)"
    if len: "length b = n" for b
  proof -
    have lf: "length (foldr flip zs b) = n" using len by (simp add: length_foldr_flip)
    have nf: "foldr flip zs b ! j = (b ! j = bit target_index j)" if "j < n" for j
      using that len by (simp add: nth_foldr_flip [OF dz] sz)
    have twice: "foldr flip zs (foldr flip zs b) = b"
    proof (rule nth_equalityI)
      show "length (foldr flip zs (foldr flip zs b)) = length b"
        by (simp add: length_foldr_flip)
    next
      fix j assume "j < length (foldr flip zs (foldr flip zs b))"
      then have j: "j < n" using len by (simp add: length_foldr_flip)
      then have "j < length (foldr flip zs b)" using lf by simp
      then show "foldr flip zs (foldr flip zs b) ! j = b ! j"
        using j len by (simp add: nth_foldr_flip [OF dz])
    qed
    have "list_all (\<lambda>v. v) (foldr flip zs b) \<longleftrightarrow> (\<forall>j<n. foldr flip zs b ! j)"
      using lf by (simp add: list_all_length)
    also have "\<dots> \<longleftrightarrow> (\<forall>j<n. b ! j = bit target_index j)"
      using nf by simp
    also have "\<dots> \<longleftrightarrow> b = map (bit target_index) [0..<n]"
      using len by (auto simp: list_eq_iff_nth_eq)
    finally have all_eq: "list_all (\<lambda>v. v) (foldr flip zs b) \<longleftrightarrow> b = map (bit target_index) [0..<n]" .
    have "psi_c b = (if list_all (\<lambda>v. v) (foldr flip zs b) then - psi_a (foldr flip zs b)
                     else psi_a (foldr flip zs b))"
      using b2 lf by (simp add: psi_c_def)
    also have "psi_a (foldr flip zs b) = psi b" by (simp add: psi_a_def twice)
    finally show ?thesis by (simp add: all_eq)
  qed
  from run val show ?thesis by blast
qed

lemma oracle_flips_target_amplitude:
  assumes "1 \<le> n" and "target_index < 2 ^ n"
  shows "\<exists>psi'. run_gates n (instructions (build_oracle target_index n)) psi = Some (psi', []) \<and>
               (\<forall>b. length b = n \<longrightarrow>
                    psi' b = (if b = map (bit target_index) [0..<n] then - psi b else psi b))"
  using oracle_flips_target_amplitude_then [OF assms, of "[]" psi] by simp


section \<open>Two qubits: one iteration finds the target, two iterations do not\<close>

text \<open>
  For two qubits (\<open>N = 4\<close>) the state vector is followed through the circuit of the
  builder, the composite gates written out. After one iteration of oracle and diffuser the
  target index is measured with probability \<open>1\<close>. After the two iterations that the builder
  composes every outcome has probability \<open>1/4\<close>, whatever the target: nothing is
  amplified.
\<close>

lemma qrange_2: "qrange 2 = [0, 1]" "qrange 1 = [0]"
  by (simp_all add: qrange_def upt_conv_Cons)

lemma h_layer_2:
  "\<exists>psi'. run_gates 2 ([H 0, H 1] @ rest) psi = run_gates 2 rest psi' \<and>
          (\<forall>x y. psi' [x, y] =
             (psi [False, False] + (if x then - 1 else 1) * psi [True, False]
              + (if y then - 1 else 1) * psi [False, True]
              + (if x then - 1 else 1) * (if y then - 1 else 1) * psi [True, True]) / 2)"
proof -
  define r2 where "r2 = complex_of_real (sqrt 2)"
  define psi1 :: statevector where
    "psi1 = (\<lambda>b. (psi (b[0 := False]) + (if b ! 0 then - 1 else 1) * psi (b[0 := True])) / r2)"
  define psi2 :: statevector where
    "psi2 = (\<lambda>b. (psi1 (b[1 := False]) + (if b ! 1 then - 1 else 1) * psi1 (b[1 := True])) / r2)"
  have q: "qubit_at 2 0 = 0" "qubit_at 2 1 = 1" by (simp_all add: qubit_at_def)
  have h0: "apply_gate 2 (H 0) psi = Some psi1"
    by (simp add: psi1_def q r2_def cong: if_cong)
  have h1: "apply_gate 2 (H 1) psi1 = Some psi2"
    by (simp add: psi2_def q r2_def cong: if_cong)
  have run: "run_gates 2 ([H 0, H 1] @ rest) psi = run_gates 2 rest psi2"
    by (simp only: append_Cons append_Nil run_gates.simps h0 h1 option.case)
  have r2: "r2 * r2 = 2" unfolding r2_def by (rule sqrt2_complex)
  have r2nz: "r2 \<noteq> 0" using r2 by auto
  have val: "psi2 [x, y] =
             (psi [False, False] + (if x then - 1 else 1) * psi [True, False]
              + (if y then - 1 else 1) * psi [False, True]
              + (if x then - 1 else 1) * (if y then - 1 else 1) * psi [True, True]) / 2" for x y
  proof -
    have a: "psi1 [False, False] = (psi [False, False] + psi [True, False]) / r2"
      "psi1 [True, False] = (psi [False, False] - psi [True, False]) / r2"
      "psi1 [False, True] = (psi [False, True] + psi [True, True]) / r2"
      "psi1 [True, True] = (psi [False, True] - psi [True, True]) / r2"
      by (simp_all add: psi1_def)
    have "psi2 [x, y] = (psi1 [x, False] + (if y then - 1 else 1) * psi1 [x, True]) / r2"
      by (simp add: psi2_def)
    also have "\<dots> = (psi [False, False] + (if x then - 1 else 1) * psi [True, False]
              + (if y then - 1 else 1) * psi [False, True]
              + (if x then - 1 else 1) * (if y then - 1 else 1) * psi [True, True]) / 2"
    proof (cases x; cases y)
      assume "x" "y"
      then show ?thesis using r2 r2nz by (simp add: a field_simps)
    next
      assume "x" "\<not> y"
      then show ?thesis using r2 r2nz by (simp add: a field_simps)
    next
      assume "\<not> x" "y"
      then show ?thesis using r2 r2nz by (simp add: a field_simps)
    next
      assume "\<not> x" "\<not> y"
      then show ?thesis using r2 r2nz by (simp add: a field_simps)
    qed
    finally show ?thesis .
  qed
  from run val show ?thesis by blast
qed

lemma x_layer_2:
  "\<exists>psi'. run_gates 2 ([X 0, X 1] @ rest) psi = run_gates 2 rest psi' \<and>
          (\<forall>x y. psi' [x, y] = psi [\<not> x, \<not> y])"
proof -
  have "run_gates 2 (map (\<lambda>i. X (int i)) [0, 1] @ rest) psi
          = run_gates 2 rest (\<lambda>b. psi (foldr flip [0, 1] b))"
    by (rule run_gates_x_layer)
  then have "run_gates 2 ([X 0, X 1] @ rest) psi = run_gates 2 rest (\<lambda>b. psi (foldr flip [0, 1] b))"
    by simp
  moreover have "(\<lambda>b. psi (foldr flip [0, 1] b)) [x, y] = psi [\<not> x, \<not> y]" for x y
    by (simp add: flip_def)
  ultimately show ?thesis by blast
qed

lemma phase_flip_2:
  "\<exists>psi'. run_gates 2 ([H 1, MCX [0] 1, H 1] @ rest) psi = run_gates 2 rest psi' \<and>
          (\<forall>x y. psi' [x, y] = (if x \<and> y then - psi [x, y] else psi [x, y]))"
proof -
  have one: "(1::nat) \<le> 2" by simp
  from phase_flip_last [OF one, of rest psi]
  obtain psi' where r: "run_gates 2 ([H (int 2 - 1), MCX (map int [0..<2 - 1]) (int 2 - 1), H (int 2 - 1)] @ rest) psi
                  = run_gates 2 rest psi'"
    and v: "\<forall>b. length b = 2 \<longrightarrow> psi' b = (if list_all (\<lambda>v. v) b then - psi b else psi b)"
    by blast
  have g: "[H (int 2 - 1), MCX (map int [0..<2 - 1]) (int 2 - 1), H (int 2 - 1)] = [H 1, MCX [0] 1, H 1]"
    by (simp add: upt_conv_Cons)
  have "psi' [x, y] = (if x \<and> y then - psi [x, y] else psi [x, y])" for x y
    using v by simp
  with r show ?thesis unfolding g by blast
qed


lemma oracle_2:
  assumes "t < 4"
  shows "\<exists>psi'. run_gates 2 (instructions (build_oracle t 2) @ rest) psi = run_gates 2 rest psi' \<and>
          (\<forall>x y. psi' [x, y] = (if x = bit t 0 \<and> y = bit t 1 then - psi [x, y] else psi [x, y]))"
proof -
  have a: "(1::nat) \<le> 2" and b: "t < 2 ^ 2" using assms by simp_all
  have m: "map (bit t) [0..<2] = [bit t 0, bit t 1]" by (simp add: upt_conv_Cons)
  from oracle_flips_target_amplitude_then [OF a b, of rest psi]
  obtain psi' where r: "run_gates 2 (instructions (build_oracle t 2) @ rest) psi = run_gates 2 rest psi'"
    and v: "\<forall>b. length b = 2 \<longrightarrow> psi' b = (if b = map (bit t) [0..<2] then - psi b else psi b)"
    by blast
  have "psi' [x, y] = (if x = bit t 0 \<and> y = bit t 1 then - psi [x, y] else psi [x, y])" for x y
    using v unfolding m by simp
  with r show ?thesis by blast
qed

lemma diffuser_2_instructions:
  "instructions (diffuser 2) = [H 0, H 1] @ [X 0, X 1] @ [H 1, MCX [0] 1, H 1] @ [X 0, X 1] @ [H 0, H 1]"
  by (simp add: diffuser_def qrange_2)

lemma diffuser_2:
  "\<exists>psi'. run_gates 2 (instructions (diffuser 2) @ rest) psi = run_gates 2 rest psi' \<and>
          (\<forall>x y. psi' [x, y] =
             psi [x, y] - (psi [False, False] + psi [True, False] + psi [False, True] + psi [True, True]) / 2)"
proof -
  from h_layer_2 [of "[X 0, X 1] @ [H 1, MCX [0] 1, H 1] @ [X 0, X 1] @ [H 0, H 1] @ rest" psi]
  obtain p1 where r1: "run_gates 2 ([H 0, H 1] @ [X 0, X 1] @ [H 1, MCX [0] 1, H 1] @ [X 0, X 1] @ [H 0, H 1] @ rest) psi
      = run_gates 2 ([X 0, X 1] @ [H 1, MCX [0] 1, H 1] @ [X 0, X 1] @ [H 0, H 1] @ rest) p1"
    and v1: "\<And>x y. p1 [x, y] =
             (psi [False, False] + (if x then - 1 else 1) * psi [True, False]
              + (if y then - 1 else 1) * psi [False, True]
              + (if x then - 1 else 1) * (if y then - 1 else 1) * psi [True, True]) / 2"
    by blast
  from x_layer_2 [of "[H 1, MCX [0] 1, H 1] @ [X 0, X 1] @ [H 0, H 1] @ rest" p1]
  obtain p2 where r2: "run_gates 2 ([X 0, X 1] @ [H 1, MCX [0] 1, H 1] @ [X 0, X 1] @ [H 0, H 1] @ rest) p1
      = run_gates 2 ([H 1, MCX [0] 1, H 1] @ [X 0, X 1] @ [H 0, H 1] @ rest) p2"
    and v2: "\<And>x y. p2 [x, y] = p1 [\<not> x, \<not> y]"
    by blast
  from phase_flip_2 [of "[X 0, X 1] @ [H 0, H 1] @ rest" p2]
  obtain p3 where r3: "run_gates 2 ([H 1, MCX [0] 1, H 1] @ [X 0, X 1] @ [H 0, H 1] @ rest) p2
      = run_gates 2 ([X 0, X 1] @ [H 0, H 1] @ rest) p3"
    and v3: "\<And>x y. p3 [x, y] = (if x \<and> y then - p2 [x, y] else p2 [x, y])"
    by blast
  from x_layer_2 [of "[H 0, H 1] @ rest" p3]
  obtain p4 where r4: "run_gates 2 ([X 0, X 1] @ [H 0, H 1] @ rest) p3 = run_gates 2 ([H 0, H 1] @ rest) p4"
    and v4: "\<And>x y. p4 [x, y] = p3 [\<not> x, \<not> y]"
    by blast
  from h_layer_2 [of rest p4]
  obtain p5 where r5: "run_gates 2 ([H 0, H 1] @ rest) p4 = run_gates 2 rest p5"
    and v5: "\<And>x y. p5 [x, y] =
             (p4 [False, False] + (if x then - 1 else 1) * p4 [True, False]
              + (if y then - 1 else 1) * p4 [False, True]
              + (if x then - 1 else 1) * (if y then - 1 else 1) * p4 [True, True]) / 2"
    by blast
  have run: "run_gates 2 (instructions (diffuser 2) @ rest) psi = run_gates 2 rest p5"
    unfolding diffuser_2_instructions append_assoc by (simp only: r1 r2 r3 r4 r5)
  have t4: "p4 [False, False] = - ((psi [False, False] + psi [True, False] + psi [False, True] + psi [True, True]) / 2)"
    "p4 [True, False] = (psi [False, False] - psi [True, False] + psi [False, True] - psi [True, True]) / 2"
    "p4 [False, True] = (psi [False, False] + psi [True, False] - psi [False, True] - psi [True, True]) / 2"
    "p4 [True, True] = (psi [False, False] - psi [True, False] - psi [False, True] + psi [True, True]) / 2"
    by (simp_all add: v4 v3 v2 v1)
  have val: "p5 [x, y] =
      psi [x, y] - (psi [False, False] + psi [True, False] + psi [False, True] + psi [True, True]) / 2" for x y
    by (cases x; cases y) (simp_all add: v5 t4 field_simps)
  from run val show ?thesis by blast
qed


lemma grover_iteration_2:
  assumes "t < 4"
  shows "\<exists>psi'. run_gates 2 ((instructions (build_oracle t 2) @ instructions (diffuser 2)) @ rest) psi
                 = run_gates 2 rest psi' \<and>
          ((\<forall>x y. psi [x, y] = 1 / 2) \<longrightarrow>
             (\<forall>x y. psi' [x, y] = (if x = bit t 0 \<and> y = bit t 1 then - 1 else 0))) \<and>
          ((\<forall>x y. psi [x, y] = (if x = bit t 0 \<and> y = bit t 1 then - 1 else 0)) \<longrightarrow>
             (\<forall>x y. psi' [x, y] = (if x = bit t 0 \<and> y = bit t 1 then 1 / 2 else - 1 / 2)))"
proof -
  from oracle_2 [OF assms, of "instructions (diffuser 2) @ rest" psi]
  obtain p1 where r1: "run_gates 2 (instructions (build_oracle t 2) @ instructions (diffuser 2) @ rest) psi
      = run_gates 2 (instructions (diffuser 2) @ rest) p1"
    and v1: "\<And>x y. p1 [x, y] = (if x = bit t 0 \<and> y = bit t 1 then - psi [x, y] else psi [x, y])"
    by blast
  from diffuser_2 [of rest p1]
  obtain p2 where r2: "run_gates 2 (instructions (diffuser 2) @ rest) p1 = run_gates 2 rest p2"
    and v2: "\<And>x y. p2 [x, y] =
             p1 [x, y] - (p1 [False, False] + p1 [True, False] + p1 [False, True] + p1 [True, True]) / 2"
    by blast
  have run: "run_gates 2 ((instructions (build_oracle t 2) @ instructions (diffuser 2)) @ rest) psi
      = run_gates 2 rest p2"
    by (simp only: append_assoc r1 r2)
  have first: "p2 [x, y] = (if x = bit t 0 \<and> y = bit t 1 then - 1 else 0)"
    if h: "\<forall>x y. psi [x, y] = 1 / 2" for x y
    by (cases "bit t 0"; cases "bit t 1"; cases x; cases y) (simp_all add: v2 v1 h)
  have second: "p2 [x, y] = (if x = bit t 0 \<and> y = bit t 1 then 1 / 2 else - 1 / 2)"
    if h: "\<forall>x y. psi [x, y] = (if x = bit t 0 \<and> y = bit t 1 then - 1 else 0)" for x y
    by (cases "bit t 0"; cases "bit t 1"; cases x; cases y) (simp_all add: v2 v1 h)
  from run first second show ?thesis by blast
qed

lemma measures_2:
  "run_gates 2 (map (\<lambda>i. Measure i i) (qrange 2)) psi = Some (psi, [(0, 0), (1, 1)])"
  by (simp add: qrange_2)

lemma probability_2:
  assumes "run_gates 2 gs (\<lambda>b. if b = replicate 2 False then 1 else 0) = Some (psi, [(0, 0), (1, 1)])"
  shows "outcome_probability \<lparr>num_qubits = 2, num_clbits = 2, name = None, instructions = gs\<rparr> key =
           Some ((if key = ''00'' then (cmod (psi [False, False]))\<^sup>2 else 0)
               + (if key = ''10'' then (cmod (psi [False, True]))\<^sup>2 else 0)
               + (if key = ''01'' then (cmod (psi [True, False]))\<^sup>2 else 0)
               + (if key = ''11'' then (cmod (psi [True, True]))\<^sup>2 else 0))"
  by (simp add: outcome_probability_def assms all_basis_2 entangle_keys eq_commute [of _ key]
      del: measure_all.simps)

lemma target_key_2:
  assumes "t < 4"
  shows "format_0nb t 2 = [if bit t 1 then CHR ''1'' else CHR ''0'', if bit t 0 then CHR ''1'' else CHR ''0'']"
proof -
  have a: "(1::nat) \<le> 2" and b: "t < 2 ^ 2" using assms by simp_all
  have l: "length (rev (format_0nb t 2)) = 2" using format_0nb_length [OF b a] by simp
  have n0: "rev (format_0nb t 2) ! 0 = (if bit t 0 then CHR ''1'' else CHR ''0'')"
    using rev_format_0nb_nth [OF b a, of 0] by simp
  have n1: "rev (format_0nb t 2) ! 1 = (if bit t 1 then CHR ''1'' else CHR ''0'')"
    using rev_format_0nb_nth [OF b a, of 1] by simp
  have "rev (format_0nb t 2) = [if bit t 0 then CHR ''1'' else CHR ''0'', if bit t 1 then CHR ''1'' else CHR ''0'']"
    using l n0 n1 by (intro nth_equalityI) (auto simp: less_Suc_eq numeral_2_eq_2)
  then have "rev (rev (format_0nb t 2)) = rev [if bit t 0 then CHR ''1'' else CHR ''0'', if bit t 1 then CHR ''1'' else CHR ''0'']"
    by (rule arg_cong)
  then show ?thesis by simp
qed

lemma grover_2_one_iteration:
  assumes "t < 4"
  shows "outcome_probability
           \<lparr>num_qubits = 2, num_clbits = 2, name = None,
            instructions =
              map H (qrange 2) @
              (instructions (build_oracle t 2) @ instructions (diffuser 2)) @
              map (\<lambda>i. Measure i i) (qrange 2)\<rparr> key
         = Some (if key = format_0nb t 2 then 1 else 0)"
proof -
  define psi0 :: statevector where "psi0 = (\<lambda>b. if b = replicate 2 False then 1 else 0)"
  define ms where "ms = map (\<lambda>i. Measure i i) (qrange 2)"
  have z: "psi0 [False, False] = 1" "psi0 [True, False] = 0" "psi0 [False, True] = 0" "psi0 [True, True] = 0"
    by (simp_all add: psi0_def numeral_2_eq_2)
  from h_layer_2 [of "(instructions (build_oracle t 2) @ instructions (diffuser 2)) @ ms" psi0]
  obtain p1 where r1: "run_gates 2 ([H 0, H 1] @ (instructions (build_oracle t 2) @ instructions (diffuser 2)) @ ms) psi0
      = run_gates 2 ((instructions (build_oracle t 2) @ instructions (diffuser 2)) @ ms) p1"
    and v1: "\<forall>x y. p1 [x, y] = 1 / 2"
    by (auto simp: z)
  from grover_iteration_2 [OF assms, of ms p1] v1
  obtain p2 where r2: "run_gates 2 ((instructions (build_oracle t 2) @ instructions (diffuser 2)) @ ms) p1
      = run_gates 2 ms p2"
    and v2: "\<forall>x y. p2 [x, y] = (if x = bit t 0 \<and> y = bit t 1 then - 1 else 0)"
    by blast
  have hl: "map H (qrange 2) = [H 0, H 1]" by (simp add: qrange_2)
  have run: "run_gates 2 (map H (qrange 2) @ (instructions (build_oracle t 2) @ instructions (diffuser 2)) @ ms) psi0
      = Some (p2, [(0, 0), (1, 1)])"
    unfolding hl by (simp only: r1 r2) (simp only: ms_def measures_2)
  show ?thesis
    using probability_2 [OF run [unfolded psi0_def ms_def], of key]
    by (cases "bit t 0"; cases "bit t 1") (auto simp: v2 target_key_2 [OF assms])
qed

lemma grover_2_two_iterations:
  assumes "t < 4"
  shows "outcome_probability
           \<lparr>num_qubits = 2, num_clbits = 2, name = None,
            instructions =
              map H (qrange 2) @
              (instructions (build_oracle t 2) @ instructions (diffuser 2)) @
              (instructions (build_oracle t 2) @ instructions (diffuser 2)) @
              map (\<lambda>i. Measure i i) (qrange 2)\<rparr> key
         = Some (if key \<in> {''00'', ''01'', ''10'', ''11''} then 1 / 4 else 0)"
proof -
  define psi0 :: statevector where "psi0 = (\<lambda>b. if b = replicate 2 False then 1 else 0)"
  define ms where "ms = map (\<lambda>i. Measure i i) (qrange 2)"
  define it where "it = instructions (build_oracle t 2) @ instructions (diffuser 2)"
  have z: "psi0 [False, False] = 1" "psi0 [True, False] = 0" "psi0 [False, True] = 0" "psi0 [True, True] = 0"
    by (simp_all add: psi0_def numeral_2_eq_2)
  from h_layer_2 [of "it @ it @ ms" psi0]
  obtain p1 where r1: "run_gates 2 ([H 0, H 1] @ it @ it @ ms) psi0 = run_gates 2 (it @ it @ ms) p1"
    and v1: "\<forall>x y. p1 [x, y] = 1 / 2"
    by (auto simp: z)
  from grover_iteration_2 [OF assms, of "it @ ms" p1] v1
  obtain p2 where r2: "run_gates 2 (it @ it @ ms) p1 = run_gates 2 (it @ ms) p2"
    and v2: "\<forall>x y. p2 [x, y] = (if x = bit t 0 \<and> y = bit t 1 then - 1 else 0)"
    unfolding it_def by blast
  from grover_iteration_2 [OF assms, of ms p2] v2
  obtain p3 where r3: "run_gates 2 (it @ ms) p2 = run_gates 2 ms p3"
    and v3: "\<forall>x y. p3 [x, y] = (if x = bit t 0 \<and> y = bit t 1 then 1 / 2 else - 1 / 2)"
    unfolding it_def by blast
  have hl: "map H (qrange 2) = [H 0, H 1]" by (simp add: qrange_2)
  have run: "run_gates 2 (map H (qrange 2) @ it @ it @ ms) psi0 = Some (p3, [(0, 0), (1, 1)])"
    unfolding hl by (simp only: r1 r2 r3) (simp only: ms_def measures_2)
  have q: "(cmod (p3 [x, y]))\<^sup>2 = 1 / 4" for x y
    by (simp add: v3 power_divide norm_divide)
  show ?thesis
    using probability_2 [OF run [unfolded psi0_def ms_def it_def], of key]
    by (auto simp: q)
qed


lemma grover_2_as_built:
  assumes "t < 4"
  shows "\<exists>b. grover_circuit_builder t 2 = Inr b \<and> built_iterations b = 2 \<and>
           (\<forall>key. outcome_probability (inlined (built_qc b)) key
                    = Some (if key \<in> {''00'', ''01'', ''10'', ''11''} then 1 / 4 else 0))"
proof -
  define b where "b =
     \<lparr>built_qc =
        \<lparr>num_qubits = 2, num_clbits = 2, name = None,
         instructions =
           map H (qrange (int 2)) @
           concat (replicate (nat 2) [to_gate (build_oracle t 2) (qrange (int 2)),
                                      to_gate (diffuser 2) (qrange (int 2))]) @
           map (\<lambda>i. Measure i i) (qrange (int 2))\<rparr>,
      built_iterations = 2, built_oracle = build_oracle t 2, built_diff = diffuser 2\<rparr>"
  have g: "grover_circuit_builder t 2 = Inr b"
    unfolding b_def by (rule grover_circuit_builder_composes [OF grover_iterations_values(1)])
  have r: "replicate 2 x = [x, x]" for x :: "'a"
    by (simp add: numeral_2_eq_2)
  have h: "concat (map (inline_gate 2 \<circ> H) qs) = map H qs" for qs
    by (induction qs) simp_all
  have m: "concat (map (inline_gate 2 \<circ> (\<lambda>i. Measure i i)) qs) = map (\<lambda>i. Measure i i) qs" for qs
    by (induction qs) simp_all
  have i: "inlined (built_qc b) =
     \<lparr>num_qubits = 2, num_clbits = 2, name = None,
      instructions =
        map H (qrange 2) @
        (instructions (build_oracle t 2) @ instructions (diffuser 2)) @
        (instructions (build_oracle t 2) @ instructions (diffuser 2)) @
        map (\<lambda>i. Measure i i) (qrange 2)\<rparr>"
    unfolding b_def by (simp add: inlined_def r to_gate_def h m)
  have "outcome_probability (inlined (built_qc b)) key
          = Some (if key \<in> {''00'', ''01'', ''10'', ''11''} then 1 / 4 else 0)" for key
    unfolding i by (rule grover_2_two_iterations [OF assms])
  moreover have "built_iterations b = 2" by (simp add: b_def)
  ultimately show ?thesis using g by blast
qed

end
